theory Spec2Isabelle
  imports Complex_Main "HOL-Library.Word" "HOL-Library.Monad_Syntax" "HOL-Library.Sublist"
begin

unbundle bit_operations_syntax

section \<open>JavaScript strings\<close>

text \<open>
  A JavaScript string is a sequence of UTF-16 code units; \<open>length\<close> counts code units,
  as \<^verbatim>\<open>buf.length\<close> does. \<open>js\<close> writes an ASCII literal as such a string.
\<close>

type_synonym code_unit = "16 word"
type_synonym jsstring = "code_unit list"

definition js :: "string \<Rightarrow> jsstring" where
  "js s = map of_char s"

text \<open>
  ECMAScript's LineTerminator code points (the ones \<^verbatim>\<open>.\<close> does not match without the
  \<^verbatim>\<open>s\<close> flag), and the set \<^verbatim>\<open>\s\<close> matches and \<^verbatim>\<open>trim()\<close> strips:
  WhiteSpace together with LineTerminator.
\<close>

definition isLineTerminator :: "code_unit \<Rightarrow> bool" where
  "isLineTerminator c \<longleftrightarrow> c = 0x0A \<or> c = 0x0D \<or> c = 0x2028 \<or> c = 0x2029"

definition isWhiteSpace :: "code_unit \<Rightarrow> bool" where
  "isWhiteSpace c \<longleftrightarrow>
     c = 0x09 \<or> c = 0x0B \<or> c = 0x0C \<or> c = 0x20 \<or> c = 0xA0 \<or> c = 0x1680 \<or>
     (0x2000 \<le> c \<and> c \<le> 0x200A) \<or> c = 0x202F \<or> c = 0x205F \<or> c = 0x3000 \<or>
     c = 0xFEFF \<or> isLineTerminator c"

text \<open>\<^verbatim>\<open>String.prototype.trim\<close>.\<close>

definition trim :: "jsstring \<Rightarrow> jsstring" where
  "trim s = rev (dropWhile isWhiteSpace (rev (dropWhile isWhiteSpace s)))"

section \<open>The Utterance Segmenter\<close>

subsection \<open>The chunking callback\<close>

text \<open>
  \<^verbatim>\<open>buf.match(/^(.+?[.!?])(?:\s+|$)/)\<close>, no flags. \<open>isSentenceEnd\<close> is the class
  \<^verbatim>\<open>[.!?]\<close>. \<open>after_terminator\<close> is the group \<^verbatim>\<open>(?:\s+|$)\<close> tried at the text that
  follows the terminator: the greedy run of white space, else the end of the input.
  \<open>lazy_dots\<close> is the matcher once \<^verbatim>\<open>.+?\<close> has taken at least one character: the
  lazy quantifier first tries to finish here, and otherwise lets \<^verbatim>\<open>.\<close> take one more
  character, which must not be a line terminator. \<open>sentence_match\<close> is \<^verbatim>\<open>m[0]\<close>, the
  whole matched text, or \<open>None\<close> where \<^verbatim>\<open>match\<close> returns null.
\<close>

definition isSentenceEnd :: "code_unit \<Rightarrow> bool" where
  "isSentenceEnd c \<longleftrightarrow> c = 0x2E \<or> c = 0x21 \<or> c = 0x3F"

fun after_terminator :: "jsstring \<Rightarrow> jsstring option" where
  "after_terminator [] = Some []"
| "after_terminator (d # ds) =
     (if isWhiteSpace d then Some (takeWhile isWhiteSpace (d # ds)) else None)"

fun lazy_dots :: "jsstring \<Rightarrow> jsstring option" where
  "lazy_dots [] = None"
| "lazy_dots (c # cs) =
     (case (if isSentenceEnd c then after_terminator cs else None) of
        Some ws \<Rightarrow> Some (c # ws)
      | None \<Rightarrow> if isLineTerminator c then None else map_option ((#) c) (lazy_dots cs))"

definition sentence_match :: "jsstring \<Rightarrow> jsstring option" where
  "sentence_match buf =
     (case buf of
        [] \<Rightarrow> None
      | c # cs \<Rightarrow> if isLineTerminator c then None else map_option ((#) c) (lazy_dots cs))"

text \<open>
  \<^verbatim>\<open>chunking: (buf) => { const m = buf.match(...); if (m) return m[0];
  if (buf.length > 120) return buf; return null; }\<close>
\<close>

definition chunking :: "jsstring \<Rightarrow> jsstring option" where
  "chunking buf =
     (case sentence_match buf of
        Some m \<Rightarrow> Some m
      | None \<Rightarrow> if length buf > 120 then Some buf else None)"

subsection \<open>The stream transform that drives the callback\<close>

text \<open>
  Modelled from the spec: \<^verbatim>\<open>smoothStream\<close> of the package \<^verbatim>\<open>ai\<close>, which is imported and
  not part of the sources. Section 4.1 of the specification: keep an accumulation buffer;
  on each incoming fragment append it to the buffer, then repeatedly apply the cut rule,
  emitting each cut and removing it from the front of the buffer, until no further cut is
  found; on stream completion a remaining non-empty buffer is emitted as a final chunk.
  \<open>cut_chunks\<close> is the repeated cut on one buffer, \<open>smooth_feed\<close> the fragments in arrival
  order, \<open>smoothStream\<close> the chunks of a stream that completes.
\<close>

function cut_chunks :: "jsstring \<Rightarrow> jsstring list \<times> jsstring" where
  "cut_chunks buf =
     (case chunking buf of
        None \<Rightarrow> ([], buf)
      | Some m \<Rightarrow> (let (out, rest) = cut_chunks (drop (length m) buf) in (m # out, rest)))"
  by pat_completeness auto
termination
proof (relation "measure length")
  show "wf (measure length)" by simp
next
  fix buf m
  assume c: "chunking buf = Some m"
  have "m \<noteq> [] \<and> buf \<noteq> []"
  proof (cases "sentence_match buf")
    case None
    with c show ?thesis
      by (auto simp: chunking_def split: if_splits)
  next
    case (Some a)
    with c have "a = m" by (simp add: chunking_def)
    with Some show ?thesis
      by (auto simp: sentence_match_def split: list.splits if_splits)
  qed
  then show "(drop (length m) buf, buf) \<in> measure length" by simp
qed

declare cut_chunks.simps [simp del]

fun smooth_feed :: "jsstring \<Rightarrow> jsstring list \<Rightarrow> jsstring list \<times> jsstring" where
  "smooth_feed buf [] = ([], buf)"
| "smooth_feed buf (f # fs) =
     (let (out, buf') = cut_chunks (buf @ f);
          (out', buf'') = smooth_feed buf' fs
      in (out @ out', buf''))"

definition smoothStream :: "jsstring list \<Rightarrow> jsstring list" where
  "smoothStream frags =
     (let (out, buf) = smooth_feed [] frags in out @ (if buf = [] then [] else [buf]))"

subsection \<open>Utterances\<close>

text \<open>
  The loop over the text stream takes \<^verbatim>\<open>String(chunk).trim()\<close> of every chunk and skips
  the chunk when that is empty (\<^verbatim>\<open>if (!sentence) continue\<close>). \<open>sentences\<close> lists what is
  left: the utterances, in emission order.
\<close>

definition sentences :: "jsstring list \<Rightarrow> jsstring list" where
  "sentences chunks = filter (\<lambda>s. s \<noteq> []) (map trim chunks)"

section \<open>The session worker\<close>

subsection \<open>Messages, events and the AI binding\<close>

text \<open>
  \<open>CoreMessage\<close> is one turn of \<^verbatim>\<open>msgHistory\<close>. \<open>out_event\<close> is what \<^verbatim>\<open>ws.send\<close> is given:
  \<^verbatim>\<open>{type:"status",text}\<close>, \<^verbatim>\<open>{type:"text",text}\<close>, \<^verbatim>\<open>{type:"audio",text,audio}\<close> and
  \<^verbatim>\<open>{type:"error",text}\<close>. A thrown value is an \<^verbatim>\<open>Error\<close> with its message, or something
  else; \<open>error_text\<close> is
  \<^verbatim>\<open>error instanceof Error ? error.message : "Unknown error"\<close>.
\<close>

datatype msg_role = User | Assistant

record CoreMessage =
  role :: msg_role
  content :: jsstring

datatype out_event =
    StatusEvent jsstring
  | TextEvent jsstring
  | AudioEvent jsstring jsstring
  | ErrorEvent jsstring

datatype js_exn = ErrorObject jsstring | OtherThrown

definition error_text :: "js_exn \<Rightarrow> jsstring" where
  "error_text e = (case e of ErrorObject m \<Rightarrow> m | OtherThrown \<Rightarrow> js ''Unknown error'')"

text \<open>
  The status texts; U+2026 is the ellipsis the source writes. \<open>status_ready\<close> is sent once
  when the socket is accepted, before any message.
\<close>

definition status_ready :: jsstring where
  "status_ready = js ''ready''"

definition status_processing :: jsstring where
  "status_processing = js ''Processing'' @ [0x2026]"

definition status_speaking :: jsstring where
  "status_speaking = js ''Speaking'' @ [0x2026]"

definition status_idle :: jsstring where
  "status_idle = js ''Idle''"

definition status_cleared :: jsstring where
  "status_cleared = js ''Chat cleared''"

text \<open>
  The binding \<^verbatim>\<open>env.AI\<close> and \<^verbatim>\<open>streamText\<close> are remote calls: the model takes their
  replies as parameters. \<open>whisper\<close> is \<^verbatim>\<open>AI.run("@cf/openai/whisper-tiny-en", ...)\<close>: it
  throws, or gives a result whose \<^verbatim>\<open>text\<close> is a string or missing. \<open>llama\<close> is the text
  stream of \<^verbatim>\<open>streamText\<close> over the history, before the transform: fragments, and then the
  end of the stream or an exception. \<open>melotts n\<close> is the reply to the \<open>n\<close>-th synthesis call of
  a response: a throw, a string, an object with an \<^verbatim>\<open>audio\<close> field, or raw bytes;
  \<open>btoa_bytes\<close> is \<^verbatim>\<open>btoa(String.fromCharCode(...bytes))\<close>, \<open>None\<close> where that throws.
\<close>

datatype whisper_reply = WhisperThrows js_exn | WhisperResult "jsstring option"

datatype tts_reply =
    TtsThrows js_exn
  | TtsString jsstring
  | TtsAudioField jsstring
  | TtsBytes "8 word list"

datatype completion =
    StreamEnds "jsstring list"
  | StreamThrows "jsstring list" js_exn

record Env =
  whisper :: "8 word list \<Rightarrow> whisper_reply"
  llama :: "CoreMessage list \<Rightarrow> completion"
  melotts :: "nat \<Rightarrow> jsstring \<Rightarrow> tts_reply"
  btoa_bytes :: "8 word list \<Rightarrow> jsstring option"

text \<open>
  \<^verbatim>\<open>transcribeAudio\<close>: \<^verbatim>\<open>return result.text || null\<close>, and \<^verbatim>\<open>null\<close> from the catch.
\<close>

definition transcribeAudio :: "Env \<Rightarrow> 8 word list \<Rightarrow> jsstring option" where
  "transcribeAudio env audioData =
     (case whisper env audioData of
        WhisperThrows e \<Rightarrow> None
      | WhisperResult t \<Rightarrow>
          (case t of None \<Rightarrow> None | Some s \<Rightarrow> if s = [] then None else Some s))"

text \<open>\<^verbatim>\<open>textToSpeech\<close>: the base64 string, or \<^verbatim>\<open>null\<close> from the catch.\<close>

definition textToSpeech :: "Env \<Rightarrow> nat \<Rightarrow> jsstring \<Rightarrow> jsstring option" where
  "textToSpeech env n prompt =
     (case melotts env n prompt of
        TtsThrows e \<Rightarrow> None
      | TtsString b64 \<Rightarrow> Some b64
      | TtsAudioField b64 \<Rightarrow> Some b64
      | TtsBytes bs \<Rightarrow> btoa_bytes env bs)"

subsection \<open>The synthesis queue\<close>

text \<open>
  Modelled from the spec: \<^verbatim>\<open>PQueue\<close> of the package \<^verbatim>\<open>p-queue\<close>, which is imported and not
  part of the sources; the source creates it with \<^verbatim>\<open>concurrency: 1\<close>. Section 4.2 of the
  specification: a serialized queue, jobs are started in submission order, exactly one job
  runs at a time, and the next job is started when the running one has finished.

  \<open>gen_state\<close> is the state of one \<^verbatim>\<open>generateAndSpeakResponse\<close> call: \<open>fullResponse\<close>, the
  jobs \<open>waiting\<close> in the queue and the one \<open>inflight\<close>, the number of jobs \<open>submitted\<close>, and
  the events \<open>sent\<close> on the socket, oldest first. A job is the utterance with its sequence
  index, counted from 1 in submission order. \<open>journal\<close> is an observer's record, not a
  variable of the source: when each job's synthesis call was started, and when its result
  (the audio, or \<open>None\<close>) came back to the job.
\<close>

datatype job_event = Started nat | Delivered nat "jsstring option"

record gen_state =
  fullResponse :: jsstring
  waiting :: "(nat \<times> jsstring) list"
  inflight :: "(nat \<times> jsstring) option"
  submitted :: nat
  sent :: "out_event list"
  journal :: "job_event list"

definition gen_init :: gen_state where
  "gen_init = \<lparr>fullResponse = [], waiting = [], inflight = None, submitted = 0,
                sent = [], journal = []\<rparr>"

definition tryToStartAnother :: "gen_state \<Rightarrow> gen_state" where
  "tryToStartAnother st =
     (case inflight st of
        Some j \<Rightarrow> st
      | None \<Rightarrow>
          (case waiting st of
             [] \<Rightarrow> st
           | j # q \<Rightarrow> st\<lparr>waiting := q, inflight := Some j,
                          journal := journal st @ [Started (fst j)]\<rparr>))"

definition queue_add :: "gen_state \<Rightarrow> jsstring \<Rightarrow> gen_state" where
  "queue_add st sentence =
     tryToStartAnother
       (st\<lparr>waiting := waiting st @ [(Suc (submitted st), sentence)],
           submitted := Suc (submitted st)\<rparr>)"

text \<open>
  The queued task, at the moment its synthesis call settles:
  \<^verbatim>\<open>const audioData = await this.textToSpeech(sentence); if (audioData) ws.send(audio)\<close>.
  The empty string is falsy, as \<^verbatim>\<open>null\<close> is. The queue then starts the next job.
\<close>

definition audio_events :: "jsstring \<Rightarrow> jsstring option \<Rightarrow> out_event list" where
  "audio_events sentence audioData =
     (case audioData of
        None \<Rightarrow> []
      | Some b64 \<Rightarrow> if b64 = [] then [] else [AudioEvent sentence b64])"

definition job_settles :: "Env \<Rightarrow> gen_state \<Rightarrow> gen_state" where
  "job_settles env st =
     (case inflight st of
        None \<Rightarrow> st
      | Some (n, sentence) \<Rightarrow>
          (let audioData = textToSpeech env n sentence
           in tryToStartAnother
                (st\<lparr>inflight := None,
                    sent := sent st @ audio_events sentence audioData,
                    journal := journal st @ [Delivered n audioData]\<rparr>)))"

subsection \<open>generateAndSpeakResponse\<close>

text \<open>
  The body of \<^verbatim>\<open>for await (const chunk of result.textStream)\<close>:
  trim, skip when empty, \<^verbatim>\<open>fullResponse += (fullResponse ? " " : "") + sentence\<close>, send the
  status, add the job to the queue.
\<close>

definition on_chunk :: "gen_state \<Rightarrow> jsstring \<Rightarrow> gen_state" where
  "on_chunk st chunk =
     (let sentence = trim chunk
      in if sentence = [] then st
         else queue_add
                (st\<lparr>fullResponse :=
                      fullResponse st @ (if fullResponse st = [] then [] else js '' '') @ sentence,
                    sent := sent st @ [StatusEvent status_speaking]\<rparr>)
                sentence)"

text \<open>
  The loop runs while synthesis calls are in flight, and each call takes its own time. The
  schedule says what happens next: \<open>True\<close>, the call in flight settles (nothing happens when
  none is in flight); \<open>False\<close>, or an exhausted schedule, the next chunk of the stream
  arrives, or its end. Every interleaving of the loop with the queue is the run of some
  schedule.
\<close>

fun speak_loop :: "Env \<Rightarrow> bool list \<Rightarrow> jsstring list \<Rightarrow> gen_state \<Rightarrow> gen_state" where
  "speak_loop env [] [] st = st"
| "speak_loop env [] (c # cs) st = speak_loop env [] cs (on_chunk st c)"
| "speak_loop env (True # sched) cs st = speak_loop env sched cs (job_settles env st)"
| "speak_loop env (False # sched) [] st = st"
| "speak_loop env (False # sched) (c # cs) st = speak_loop env sched cs (on_chunk st c)"

text \<open>\<^verbatim>\<open>await ttsQueue.onIdle()\<close>: the jobs left settle one after the other.\<close>

function onIdle :: "Env \<Rightarrow> gen_state \<Rightarrow> gen_state" where
  "onIdle env st = (if inflight st = None then st else onIdle env (job_settles env st))"
  by pat_completeness auto
termination
  by (relation "measure (\<lambda>(env, st). length (waiting st) + (if inflight st = None then 0 else 1))")
     (auto simp: job_settles_def tryToStartAnother_def Let_def split: list.splits option.splits)

declare onIdle.simps [simp del]

text \<open>
  The result of the call: the history, the events sent until the call returned or threw,
  the exception it threw, and the events that jobs still queued at a throw send afterwards
  (the queue is not awaited on that path).
\<close>

record gen_result =
  history_after :: "CoreMessage list"
  events_sent :: "out_event list"
  thrown :: "js_exn option"
  events_late :: "out_event list"

definition generateAndSpeakResponse :: "Env \<Rightarrow> bool list \<Rightarrow> CoreMessage list \<Rightarrow> gen_result" where
  "generateAndSpeakResponse env sched msgHistory =
     (case llama env msgHistory of
        StreamEnds frags \<Rightarrow>
          (let st = onIdle env (speak_loop env sched (smoothStream frags) gen_init)
           in \<lparr>history_after = msgHistory @ [\<lparr>role = Assistant, content = fullResponse st\<rparr>],
               events_sent = sent st, thrown = None, events_late = []\<rparr>)
      | StreamThrows frags e \<Rightarrow>
          (let st = speak_loop env sched (fst (smooth_feed [] frags)) gen_init
           in \<lparr>history_after = msgHistory, events_sent = sent st, thrown = Some e,
               events_late = drop (length (sent st)) (sent (onIdle env st))\<rparr>))"

subsection \<open>handleAudioInput and the message listener\<close>

definition handleAudioInput :: "Env \<Rightarrow> bool list \<Rightarrow> CoreMessage list \<Rightarrow> 8 word list \<Rightarrow> gen_result" where
  "handleAudioInput env sched msgHistory audioData =
     (case transcribeAudio env audioData of
        None \<Rightarrow>
          \<lparr>history_after = msgHistory,
           events_sent = [StatusEvent status_processing, StatusEvent status_idle],
           thrown = None, events_late = []\<rparr>
      | Some transcription \<Rightarrow>
          (let r = generateAndSpeakResponse env sched
                     (msgHistory @ [\<lparr>role = User, content = transcription\<rparr>])
           in r\<lparr>events_sent :=
                  [StatusEvent status_processing, TextEvent transcription,
                   StatusEvent status_speaking]
                  @ events_sent r
                  @ (case thrown r of None \<Rightarrow> [StatusEvent status_idle] | Some e \<Rightarrow> [])\<rparr>))"

text \<open>
  What a message holds: binary audio, or text. \<^verbatim>\<open>JSON.parse\<close> of the text throws an
  \<^verbatim>\<open>Error\<close> (as reading a field of \<^verbatim>\<open>null\<close> does), or gives an object whose \<^verbatim>\<open>type\<close> and
  \<^verbatim>\<open>data\<close> are strings or something else (\<open>None\<close>), which \<^verbatim>\<open>===\<close> tells from every string.
\<close>

datatype json_text = Malformed jsstring | Fields "jsstring option" "jsstring option"

datatype ws_data = ArrayBuffer "8 word list" | JsonText json_text

record reaction =
  msgHistory_after :: "CoreMessage list"
  emitted :: "out_event list"
  emitted_late :: "out_event list"

definition on_message :: "Env \<Rightarrow> bool list \<Rightarrow> CoreMessage list \<Rightarrow> ws_data \<Rightarrow> reaction" where
  "on_message env sched msgHistory d =
     (case d of
        ArrayBuffer audioData \<Rightarrow>
          (let r = handleAudioInput env sched msgHistory audioData
           in \<lparr>msgHistory_after = history_after r,
               emitted = events_sent r
                 @ (case thrown r of None \<Rightarrow> [] | Some e \<Rightarrow> [ErrorEvent (error_text e)]),
               emitted_late = events_late r\<rparr>)
      | JsonText (Malformed m) \<Rightarrow>
          \<lparr>msgHistory_after = msgHistory, emitted = [ErrorEvent m], emitted_late = []\<rparr>
      | JsonText (Fields ty dat) \<Rightarrow>
          (if ty = Some (js ''cmd'') \<and> dat = Some (js ''clear'')
           then \<lparr>msgHistory_after = [], emitted = [StatusEvent status_cleared],
                 emitted_late = []\<rparr>
           else \<lparr>msgHistory_after = msgHistory, emitted = [], emitted_late = []\<rparr>))"

section \<open>The WAV encoder\<close>

subsection \<open>Numbers\<close>

text \<open>
  The values of a \<^verbatim>\<open>Float32Array\<close> element: a finite value, NaN or an infinity. A finite
  value is held as a real. The encoder compares, takes minima and maxima, and multiplies
  by \<^verbatim>\<open>0x8000\<close> or \<^verbatim>\<open>0x7fff\<close>; on a 32-bit float widened to a double these are exact
  (a 24-bit significand times a 15-bit constant fits the 53 bits of a double), so the
  real arithmetic is the arithmetic of the source. \<open>math_min\<close> and \<open>math_max\<close> are
  \<^verbatim>\<open>Math.min\<close> and \<^verbatim>\<open>Math.max\<close>: NaN if an argument is NaN. \<open>less_than\<close> is \<^verbatim>\<open><\<close>
  against a finite constant and \<open>times_pos\<close> the product with a positive finite constant.
  \<open>truncate\<close> drops the fraction, towards zero; \<open>ToInt16\<close> is the conversion
  \<^verbatim>\<open>setInt16\<close> applies to its argument: NaN and the infinities to 0, a finite value
  truncated and taken modulo \<open>2 ^ 16\<close>.
\<close>

type_synonym byte = "8 word"

datatype number = Finite real | NaN | PosInf | NegInf

fun math_min :: "number \<Rightarrow> number \<Rightarrow> number" where
  "math_min NaN y = NaN"
| "math_min x NaN = NaN"
| "math_min NegInf y = NegInf"
| "math_min x NegInf = NegInf"
| "math_min PosInf y = y"
| "math_min x PosInf = x"
| "math_min (Finite a) (Finite b) = Finite (min a b)"

fun math_max :: "number \<Rightarrow> number \<Rightarrow> number" where
  "math_max NaN y = NaN"
| "math_max x NaN = NaN"
| "math_max PosInf y = PosInf"
| "math_max x PosInf = PosInf"
| "math_max NegInf y = y"
| "math_max x NegInf = x"
| "math_max (Finite a) (Finite b) = Finite (max a b)"

fun less_than :: "number \<Rightarrow> real \<Rightarrow> bool" where
  "less_than (Finite a) c \<longleftrightarrow> a < c"
| "less_than NaN c \<longleftrightarrow> False"
| "less_than PosInf c \<longleftrightarrow> False"
| "less_than NegInf c \<longleftrightarrow> True"

fun times_pos :: "number \<Rightarrow> real \<Rightarrow> number" where
  "times_pos (Finite a) c = Finite (a * c)"
| "times_pos NaN c = NaN"
| "times_pos PosInf c = PosInf"
| "times_pos NegInf c = NegInf"

definition truncate :: "real \<Rightarrow> int" where
  "truncate a = (if a < 0 then \<lceil>a\<rceil> else \<lfloor>a\<rfloor>)"

fun ToInt16 :: "number \<Rightarrow> 16 word" where
  "ToInt16 (Finite a) = word_of_int (truncate a)"
| "ToInt16 NaN = 0"
| "ToInt16 PosInf = 0"
| "ToInt16 NegInf = 0"

text \<open>
  The sample rate and the sizes are integer-valued numbers, held as \<open>int\<close>. \<open>ToUint8\<close>,
  \<open>ToUint16\<close> and \<open>ToUint32\<close> are the conversions of \<^verbatim>\<open>setUint8\<close>, \<^verbatim>\<open>setUint16\<close> and
  \<^verbatim>\<open>setUint32\<close>: modulo \<open>2 ^ 8\<close>, \<open>2 ^ 16\<close> and \<open>2 ^ 32\<close>. \<open>bytes16\<close> and \<open>bytes32\<close> are
  the bytes of a value in the byte order asked for.
\<close>

definition ToUint8 :: "int \<Rightarrow> byte" where
  "ToUint8 v = word_of_int v"

definition ToUint16 :: "int \<Rightarrow> 16 word" where
  "ToUint16 v = word_of_int v"

definition ToUint32 :: "int \<Rightarrow> 32 word" where
  "ToUint32 v = word_of_int v"

definition bytes16 :: "bool \<Rightarrow> 16 word \<Rightarrow> byte list" where
  "bytes16 littleEndian w =
     (let bs = [ucast w, ucast (drop_bit 8 w)] in if littleEndian then bs else rev bs)"

definition bytes32 :: "bool \<Rightarrow> 32 word \<Rightarrow> byte list" where
  "bytes32 littleEndian w =
     (let bs = [ucast w, ucast (drop_bit 8 w), ucast (drop_bit 16 w), ucast (drop_bit 24 w)]
      in if littleEndian then bs else rev bs)"

subsection \<open>DataView\<close>

text \<open>
  The view is the buffer's bytes. A setter writes at a byte offset and throws a
  \<^verbatim>\<open>RangeError\<close>, here \<open>None\<close>, when the bytes do not fit. The getters are the readers
  the statements decode the header with.
\<close>

definition put_bytes :: "byte list \<Rightarrow> nat \<Rightarrow> byte list \<Rightarrow> byte list option" where
  "put_bytes view byteOffset bs =
     (if byteOffset + length bs \<le> length view
      then Some (take byteOffset view @ bs @ drop (byteOffset + length bs) view)
      else None)"

definition setUint8 :: "byte list \<Rightarrow> nat \<Rightarrow> int \<Rightarrow> byte list option" where
  "setUint8 view byteOffset v = put_bytes view byteOffset [ToUint8 v]"

definition setUint16 :: "byte list \<Rightarrow> nat \<Rightarrow> int \<Rightarrow> bool \<Rightarrow> byte list option" where
  "setUint16 view byteOffset v littleEndian =
     put_bytes view byteOffset (bytes16 littleEndian (ToUint16 v))"

definition setUint32 :: "byte list \<Rightarrow> nat \<Rightarrow> int \<Rightarrow> bool \<Rightarrow> byte list option" where
  "setUint32 view byteOffset v littleEndian =
     put_bytes view byteOffset (bytes32 littleEndian (ToUint32 v))"

definition setInt16 :: "byte list \<Rightarrow> nat \<Rightarrow> number \<Rightarrow> bool \<Rightarrow> byte list option" where
  "setInt16 view byteOffset v littleEndian =
     put_bytes view byteOffset (bytes16 littleEndian (ToInt16 v))"

definition get_bytes :: "byte list \<Rightarrow> nat \<Rightarrow> nat \<Rightarrow> byte list option" where
  "get_bytes view byteOffset n =
     (if byteOffset + n \<le> length view then Some (take n (drop byteOffset view)) else None)"

fun word16_of :: "bool \<Rightarrow> byte list \<Rightarrow> 16 word" where
  "word16_of littleEndian [b0, b1] =
     (if littleEndian then ucast b0 OR push_bit 8 (ucast b1)
      else ucast b1 OR push_bit 8 (ucast b0))"
| "word16_of littleEndian bs = 0"

fun word32_of :: "bool \<Rightarrow> byte list \<Rightarrow> 32 word" where
  "word32_of littleEndian [b0, b1, b2, b3] =
     (if littleEndian
      then ucast b0 OR push_bit 8 (ucast b1) OR push_bit 16 (ucast b2) OR push_bit 24 (ucast b3)
      else ucast b3 OR push_bit 8 (ucast b2) OR push_bit 16 (ucast b1) OR push_bit 24 (ucast b0))"
| "word32_of littleEndian bs = 0"

definition getUint16 :: "byte list \<Rightarrow> nat \<Rightarrow> bool \<Rightarrow> int option" where
  "getUint16 view byteOffset littleEndian =
     map_option (\<lambda>bs. uint (word16_of littleEndian bs)) (get_bytes view byteOffset 2)"


definition getUint32 :: "byte list \<Rightarrow> nat \<Rightarrow> bool \<Rightarrow> int option" where
  "getUint32 view byteOffset littleEndian =
     map_option (\<lambda>bs. uint (word32_of littleEndian bs)) (get_bytes view byteOffset 4)"

subsection \<open>encodeWavPCM16\<close>

text \<open>
  \<^verbatim>\<open>writeString\<close>: \<^verbatim>\<open>view.setUint8(offset + i, str.charCodeAt(i))\<close> for every index.
\<close>

fun writeString :: "byte list \<Rightarrow> nat \<Rightarrow> jsstring \<Rightarrow> byte list option" where
  "writeString view offset [] = Some view"
| "writeString view offset (c # cs) =
     (case setUint8 view offset (uint c) of
        None \<Rightarrow> None
      | Some v \<Rightarrow> writeString v (Suc offset) cs)"

text \<open>
  The body of the sample loop:
  \<^verbatim>\<open>const sample = Math.max(-1, Math.min(1, samples[i]));\<close>
  \<^verbatim>\<open>const pcmSample = sample < 0 ? sample * 0x8000 : sample * 0x7fff;\<close>
  \<^verbatim>\<open>view.setInt16(offset, pcmSample, true); offset += 2;\<close>
  \<open>write_samples\<close> is the loop and \<open>encodeWavPCM16\<close> the function: the constants, a
  zero-filled buffer of \<^verbatim>\<open>bufferSize\<close> bytes (its allocation is taken to succeed), the
  header fields in the order and at the offsets of the source, then the samples. The
  result is the buffer, or \<open>None\<close> where a write throws.
\<close>

definition clamp_sample :: "number \<Rightarrow> number" where
  "clamp_sample x = math_max (Finite (-1)) (math_min (Finite 1) x)"

definition pcmSample :: "number \<Rightarrow> number" where
  "pcmSample x =
     (let sample = clamp_sample x
      in if less_than sample 0 then times_pos sample 0x8000 else times_pos sample 0x7fff)"

fun write_samples :: "byte list \<Rightarrow> nat \<Rightarrow> number list \<Rightarrow> byte list option" where
  "write_samples view offset [] = Some view"
| "write_samples view offset (x # xs) =
     (case setInt16 view offset (pcmSample x) True of
        None \<Rightarrow> None
      | Some v \<Rightarrow> write_samples v (offset + 2) xs)"

definition encodeWavPCM16 :: "number list \<Rightarrow> int \<Rightarrow> byte list option" where
  "encodeWavPCM16 samples sampleRate =
     (let numChannels = 1;
          bitsPerSample = 16;
          bytesPerSample = bitsPerSample div 8;
          blockAlign = numChannels * bytesPerSample;
          byteRate = sampleRate * blockAlign;
          dataSize = int (length samples) * bytesPerSample;
          bufferSize = 44 + dataSize;
          view = replicate (nat bufferSize) 0;
          offset = 0
      in do {
        view \<leftarrow> writeString view offset (js ''RIFF'');
        let offset = offset + 4;
        view \<leftarrow> setUint32 view offset (bufferSize - 8) True;
        let offset = offset + 4;
        view \<leftarrow> writeString view offset (js ''WAVE'');
        let offset = offset + 4;
        view \<leftarrow> writeString view offset (js ''fmt '');
        let offset = offset + 4;
        view \<leftarrow> setUint32 view offset 16 True;
        let offset = offset + 4;
        view \<leftarrow> setUint16 view offset 1 True;
        let offset = offset + 2;
        view \<leftarrow> setUint16 view offset numChannels True;
        let offset = offset + 2;
        view \<leftarrow> setUint32 view offset sampleRate True;
        let offset = offset + 4;
        view \<leftarrow> setUint32 view offset byteRate True;
        let offset = offset + 4;
        view \<leftarrow> setUint16 view offset blockAlign True;
        let offset = offset + 2;
        view \<leftarrow> setUint16 view offset bitsPerSample True;
        let offset = offset + 2;
        view \<leftarrow> writeString view offset (js ''data'');
        let offset = offset + 4;
        view \<leftarrow> setUint32 view offset dataSize True;
        let offset = offset + 4;
        write_samples view offset samples
      })"

section \<open>Notions used in the statements\<close>

text \<open>
  The specification's words for the assistant turn: the utterances joined with single
  spaces. \<open>visible\<close> is a text without its white space.
\<close>

fun join_spaces :: "jsstring list \<Rightarrow> jsstring" where
  "join_spaces [] = []"
| "join_spaces [s] = s"
| "join_spaces (s # t # ts) = s @ js '' '' @ join_spaces (t # ts)"

definition visible :: "jsstring \<Rightarrow> jsstring" where
  "visible s = filter (\<lambda>c. \<not> isWhiteSpace c) s"

text \<open>
  The jobs of a list of utterances, with their sequence indices from 1; what the journal
  shows of one job, and the audio events it sends; the audio events among the events sent.
\<close>

definition jobs_of :: "jsstring list \<Rightarrow> (nat \<times> jsstring) list" where
  "jobs_of ss = enumerate 1 ss"

definition job_journal :: "Env \<Rightarrow> nat \<times> jsstring \<Rightarrow> job_event list" where
  "job_journal env j = [Started (fst j), Delivered (fst j) (textToSpeech env (fst j) (snd j))]"

definition job_audio :: "Env \<Rightarrow> nat \<times> jsstring \<Rightarrow> out_event list" where
  "job_audio env j = audio_events (snd j) (textToSpeech env (fst j) (snd j))"

definition is_audio :: "out_event \<Rightarrow> bool" where
  "is_audio e = (case e of AudioEvent s b \<Rightarrow> True | _ \<Rightarrow> False)"

text \<open>
  The queue's invariant: the jobs \<open>fin\<close> have settled, in this order; the first of \<open>pend\<close>
  is in flight and the rest of \<open>pend\<close> waits. \<open>tracks\<close> says that the settled and pending
  jobs are the jobs of the utterances \<open>ss\<close>.
\<close>

definition queue_inv ::
  "Env \<Rightarrow> (nat \<times> jsstring) list \<Rightarrow> (nat \<times> jsstring) list \<Rightarrow> gen_state \<Rightarrow> bool" where
  "queue_inv env fin pend st \<longleftrightarrow>
     submitted st = length fin + length pend \<and>
     filter is_audio (sent st) = concat (map (job_audio env) fin) \<and>
     (case pend of
        [] \<Rightarrow> inflight st = None \<and> waiting st = [] \<and>
              journal st = concat (map (job_journal env) fin)
      | j # q \<Rightarrow> inflight st = Some j \<and> waiting st = q \<and>
              journal st = concat (map (job_journal env) fin) @ [Started (fst j)])"

definition tracks :: "Env \<Rightarrow> jsstring list \<Rightarrow> gen_state \<Rightarrow> bool" where
  "tracks env ss st \<longleftrightarrow> (\<exists>fin pend. fin @ pend = jobs_of ss \<and> queue_inv env fin pend st)"

definition is_error :: "out_event \<Rightarrow> bool" where
  "is_error e = (case e of ErrorEvent m \<Rightarrow> True | _ \<Rightarrow> False)"

text \<open>
  The events the loop and the queue send while a response is generated: the speaking
  status and audio events.
\<close>

definition loop_event :: "out_event \<Rightarrow> bool" where
  "loop_event e \<longleftrightarrow> e = StatusEvent status_speaking \<or> is_audio e"


definition sample_bytes :: "number \<Rightarrow> byte list" where
  "sample_bytes x = bytes16 True (ToInt16 (pcmSample x))"

definition wav_header :: "nat \<Rightarrow> int \<Rightarrow> byte list" where
  "wav_header n sampleRate =
     map (\<lambda>c. ToUint8 (uint c)) (js ''RIFF'') @ bytes32 True (ToUint32 (44 + int n * 2 - 8))
     @ map (\<lambda>c. ToUint8 (uint c)) (js ''WAVE'') @ map (\<lambda>c. ToUint8 (uint c)) (js ''fmt '')
     @ bytes32 True (ToUint32 16) @ bytes16 True (ToUint16 1) @ bytes16 True (ToUint16 1)
     @ bytes32 True (ToUint32 sampleRate) @ bytes32 True (ToUint32 (sampleRate * 2))
     @ bytes16 True (ToUint16 2) @ bytes16 True (ToUint16 16)
     @ map (\<lambda>c. ToUint8 (uint c)) (js ''data'') @ bytes32 True (ToUint32 (int n * 2))"

subsection \<open>An example binding\<close>

text \<open>
  A binding for the concrete runs below. Transcription gives nothing for the empty
  payload, throws for the payload \<open>[0]\<close> and hears "hello" otherwise. The completion over
  a history of one turn streams "Pi is 3." and "14." and ends; over any other history it
  streams "Hi. " and then throws. The second synthesis call of a response throws, the
  others give a base64 string.
\<close>

definition example_env :: Env where
  "example_env =
     \<lparr>whisper = (\<lambda>a. if a = [] then WhisperResult None
                    else if a = [0] then WhisperThrows (ErrorObject (js ''stt down''))
                    else WhisperResult (Some (js ''hello''))),
      llama = (\<lambda>h. if length h = 1 then StreamEnds [js ''Pi is 3.'', js ''14.'']
                  else StreamThrows [js ''Hi. ''] (ErrorObject (js ''llm down''))),
      melotts = (\<lambda>n s. if n = 2 then TtsThrows (ErrorObject (js ''tts down''))
                    else TtsString (js ''QUJD'')),
      btoa_bytes = (\<lambda>bs. Some [])\<rparr>"

text \<open>
  A binding whose synthesis calls all succeed: the \<open>n\<close>-th call of a response gives the
  letter A \<open>n\<close> times, so that an audio event shows which call it comes from.
\<close>

definition counting_env :: Env where
  "counting_env =
     \<lparr>whisper = (\<lambda>a. WhisperResult (Some (js ''hello''))),
      llama = (\<lambda>h. StreamEnds [js ''One. Two. Three.'']),
      melotts = (\<lambda>n s. TtsString (replicate n 0x41)),
      btoa_bytes = (\<lambda>bs. Some [])\<rparr>"

section \<open>Verification\<close>

subsection \<open>The cuts partition the text\<close>

lemma after_terminator_prefix:
  assumes "after_terminator cs = Some ws"
  shows "take (length ws) cs = ws"
proof (cases cs)
  case Nil
  with assms show ?thesis by auto
next
  case (Cons d ds)
  have "take (length (takeWhile isWhiteSpace cs)) cs = takeWhile isWhiteSpace cs"
    by (rule takeWhile_eq_take [symmetric])
  with assms Cons show ?thesis by (auto split: if_splits)
qed

lemma lazy_dots_prefix:
  "lazy_dots cs = Some m \<Longrightarrow> take (length m) cs = m"
proof (induction cs arbitrary: m)
  case Nil
  then show ?case by simp
next
  case (Cons c cs)
  show ?case
  proof (cases "if isSentenceEnd c then after_terminator cs else None")
    case (Some ws)
    with Cons.prems have m: "m = c # ws" by simp
    from Some have "after_terminator cs = Some ws" by (simp split: if_splits)
    then show ?thesis using m by (simp add: after_terminator_prefix)
  next
    case None
    with Cons.prems obtain m' where "lazy_dots cs = Some m'" "m = c # m'"
      by (auto split: if_splits)
    then show ?thesis using Cons.IH by simp
  qed
qed

lemma sentence_match_prefix:
  "sentence_match buf = Some m \<Longrightarrow> take (length m) buf = m \<and> m \<noteq> []"
  by (cases buf) (auto simp: sentence_match_def lazy_dots_prefix split: if_splits)

lemma chunking_prefix:
  "chunking buf = Some m \<Longrightarrow> take (length m) buf = m \<and> m \<noteq> []"
  by (cases "sentence_match buf") (auto simp: chunking_def sentence_match_prefix split: if_splits)

lemma cut_chunks_concat:
  "cut_chunks buf = (out, rest) \<Longrightarrow> concat out @ rest = buf"
proof (induction buf arbitrary: out rest rule: cut_chunks.induct)
  case (1 buf)
  show ?case
  proof (cases "chunking buf")
    case None
    with "1.prems" show ?thesis by (simp add: cut_chunks.simps)
  next
    case (Some m)
    obtain out' rest' where r: "cut_chunks (drop (length m) buf) = (out', rest')"
      by (cases "cut_chunks (drop (length m) buf)")
    with Some "1.prems" have o: "out = m # out'" "rest = rest'"
      by (simp_all add: cut_chunks.simps)
    from "1.IH"[OF Some r] have "concat out' @ rest' = drop (length m) buf" .
    moreover from chunking_prefix[OF Some] have "m @ drop (length m) buf = buf"
      by (metis append_take_drop_id)
    ultimately show ?thesis using o by simp
  qed
qed

lemma smooth_feed_concat:
  "smooth_feed buf frags = (out, rest) \<Longrightarrow> concat out @ rest = buf @ concat frags"
proof (induction frags arbitrary: buf out rest)
  case Nil
  then show ?case by simp
next
  case (Cons f fs)
  obtain o1 b1 where c: "cut_chunks (buf @ f) = (o1, b1)" by (cases "cut_chunks (buf @ f)")
  obtain o2 b2 where s: "smooth_feed b1 fs = (o2, b2)" by (cases "smooth_feed b1 fs")
  from Cons.prems c s have "out = o1 @ o2" "rest = b2" by simp_all
  moreover from cut_chunks_concat[OF c] have "concat o1 @ b1 = buf @ f" .
  moreover from Cons.IH[OF s] have "concat o2 @ b2 = b1 @ concat fs" .
  ultimately show ?case by (metis append.assoc concat.simps(2) concat_append)
qed

lemma smoothStream_concat: "concat (smoothStream frags) = concat frags"
proof -
  obtain out rest where s: "smooth_feed [] frags = (out, rest)" by (cases "smooth_feed [] frags")
  from smooth_feed_concat[OF s] show ?thesis
    by (auto simp: smoothStream_def s)
qed

subsection \<open>Trimming, joining and the accumulated response\<close>

lemma filter_not_dropWhile: "filter (\<lambda>x. \<not> P x) (dropWhile P xs) = filter (\<lambda>x. \<not> P x) xs"
  by (induction xs) auto

lemma visible_trim: "visible (trim s) = visible s"
  by (simp add: visible_def trim_def filter_not_dropWhile rev_filter [symmetric])

lemma visible_append: "visible (a @ b) = visible a @ visible b"
  by (simp add: visible_def)

lemma visible_space: "visible (js '' '') = []"
  by (simp add: visible_def js_def isWhiteSpace_def)

lemma visible_join_spaces: "visible (join_spaces ss) = visible (concat ss)"
  by (induction ss rule: join_spaces.induct) (simp_all add: visible_append visible_space)

lemma visible_concat_sentences: "visible (concat (sentences cs)) = visible (concat cs)"
proof (induction cs)
  case Nil
  then show ?case by (simp add: sentences_def)
next
  case (Cons c cs)
  have "visible (concat (sentences (c # cs))) = visible (trim c) @ visible (concat (sentences cs))"
    by (simp add: sentences_def visible_append) (simp add: visible_def)
  then show ?case using Cons by (simp add: visible_append visible_trim)
qed

lemma trim_empty_iff: "trim s = [] \<longleftrightarrow> list_all isWhiteSpace s"
proof (cases "dropWhile isWhiteSpace s")
  case Nil
  then have "\<forall>x\<in>set s. isWhiteSpace x" by (simp add: dropWhile_eq_Nil_conv)
  then show ?thesis unfolding trim_def Nil by (simp add: list_all_iff)
next
  case (Cons x xs)
  then have nx: "\<not> isWhiteSpace x" using hd_dropWhile[of isWhiteSpace s] by auto
  have "x \<in> set (dropWhile isWhiteSpace s)" using Cons by simp
  then have "x \<in> set s" by (meson set_dropWhileD)
  with nx have "\<not> list_all isWhiteSpace s" by (auto simp: list_all_iff)
  moreover have "trim s \<noteq> []"
    using Cons nx by (auto simp: trim_def dropWhile_eq_Nil_conv)
  ultimately show ?thesis by simp
qed

lemma sentences_nonempty: "\<forall>x\<in>set (sentences cs). x \<noteq> []"
  by (simp add: sentences_def)

lemma sentences_append: "sentences (a @ b) = sentences a @ sentences b"
  by (simp add: sentences_def)

lemma sentences_Cons: "sentences (c # cs) = (if trim c = [] then [] else [trim c]) @ sentences cs"
  by (simp add: sentences_def)

lemma join_spaces_empty_iff: "\<forall>x\<in>set ss. x \<noteq> [] \<Longrightarrow> join_spaces ss = [] \<longleftrightarrow> ss = []"
  by (induction ss rule: join_spaces.induct) auto

lemma join_spaces_snoc:
  "join_spaces (ss @ [s]) = (if ss = [] then s else join_spaces ss @ js '' '' @ s)"
  by (induction ss rule: join_spaces.induct) auto

lemma fullResponse_tryToStartAnother [simp]:
  "fullResponse (tryToStartAnother st) = fullResponse st"
  by (simp add: tryToStartAnother_def split: option.splits list.splits)

lemma fullResponse_job_settles [simp]: "fullResponse (job_settles env st) = fullResponse st"
  by (simp add: job_settles_def Let_def split: option.splits prod.splits)

lemma fullResponse_on_chunk:
  assumes "fullResponse st = join_spaces ss" "\<forall>x\<in>set ss. x \<noteq> []"
  shows "fullResponse (on_chunk st c) = join_spaces (ss @ sentences [c])"
proof (cases "trim c = []")
  case True
  then show ?thesis using assms by (simp add: on_chunk_def sentences_def)
next
  case False
  have "fullResponse (on_chunk st c) =
          fullResponse st @ (if fullResponse st = [] then [] else js '' '') @ trim c"
    using False by (simp add: on_chunk_def Let_def queue_add_def)
  also have "\<dots> = join_spaces (ss @ [trim c])"
    using assms join_spaces_empty_iff[OF assms(2)] by (simp add: join_spaces_snoc)
  finally show ?thesis using False by (simp add: sentences_def)
qed

lemma fullResponse_speak_loop:
  "fullResponse st = join_spaces ss \<Longrightarrow> \<forall>x\<in>set ss. x \<noteq> [] \<Longrightarrow>
   fullResponse (speak_loop env sched cs st) = join_spaces (ss @ sentences cs)"
proof (induction env sched cs st arbitrary: ss rule: speak_loop.induct)
  case (1 env st)
  then show ?case by (simp add: sentences_def)
next
  case (2 env c cs st)
  have a: "fullResponse (on_chunk st c) = join_spaces (ss @ sentences [c])"
    using "2.prems" by (rule fullResponse_on_chunk)
  have b: "\<forall>x\<in>set (ss @ sentences [c]). x \<noteq> []"
    using "2.prems"(2) sentences_nonempty by auto
  from "2.IH"[OF a b] show ?case
    by (simp add: sentences_append [symmetric])
next
  case (3 env sched cs st)
  then show ?case by simp
next
  case (4 env sched st)
  then show ?case by (simp add: sentences_def)
next
  case (5 env sched c cs st)
  have a: "fullResponse (on_chunk st c) = join_spaces (ss @ sentences [c])"
    using "5.prems" by (rule fullResponse_on_chunk)
  have b: "\<forall>x\<in>set (ss @ sentences [c]). x \<noteq> []"
    using "5.prems"(2) sentences_nonempty by auto
  from "5.IH"[OF a b] show ?case
    by (simp add: sentences_append [symmetric])
qed

lemma onIdle_idle: "inflight st = None \<Longrightarrow> onIdle env st = st"
  by (subst onIdle.simps) simp

lemma onIdle_busy: "inflight st = Some j \<Longrightarrow> onIdle env st = onIdle env (job_settles env st)"
  by (subst onIdle.simps) simp

lemma fullResponse_onIdle [simp]: "fullResponse (onIdle env st) = fullResponse st"
proof (induction env st rule: onIdle.induct)
  case (1 env st)
  show ?case
  proof (cases "inflight st = None")
    case True
    then have "onIdle env st = st" by (rule onIdle_idle)
    then show ?thesis by simp
  next
    case False
    then obtain j where "inflight st = Some j" by auto
    then have "onIdle env st = onIdle env (job_settles env st)" by (rule onIdle_busy)
    then show ?thesis using "1.IH"[OF False] by simp
  qed
qed

lemma fullResponse_loop:
  "fullResponse (speak_loop env sched cs gen_init) = join_spaces (sentences cs)"
  using fullResponse_speak_loop[of gen_init "[]" env sched cs] by (simp add: gen_init_def)

lemma fullResponse_run:
  "fullResponse (onIdle env (speak_loop env sched cs gen_init)) = join_spaces (sentences cs)"
  using fullResponse_speak_loop[of gen_init "[]" env sched cs] by (simp add: gen_init_def)

subsection \<open>The queue settles the jobs in submission order\<close>

lemma jobs_of_Nil [simp]: "jobs_of [] = []"
  by (simp add: jobs_of_def)

lemma length_jobs_of [simp]: "length (jobs_of ss) = length ss"
  by (simp add: jobs_of_def)

lemma jobs_of_snoc: "jobs_of (ss @ [s]) = jobs_of ss @ [(Suc (length ss), s)]"
  by (simp add: jobs_of_def enumerate_append_eq)

lemma queue_inv_init: "queue_inv env [] [] gen_init"
  by (simp add: queue_inv_def gen_init_def)

lemma tryToStartAnother_busy: "inflight st = Some j \<Longrightarrow> tryToStartAnother st = st"
  by (simp add: tryToStartAnother_def)

lemma tryToStartAnother_empty:
  "inflight st = None \<Longrightarrow> waiting st = [] \<Longrightarrow> tryToStartAnother st = st"
  by (simp add: tryToStartAnother_def)

lemma tryToStartAnother_next:
  "inflight st = None \<Longrightarrow> waiting st = j # q \<Longrightarrow>
   tryToStartAnother st
     = st\<lparr>waiting := q, inflight := Some j, journal := journal st @ [Started (fst j)]\<rparr>"
  by (simp add: tryToStartAnother_def)

lemma is_audio_audio_events: "filter is_audio (audio_events s a) = audio_events s a"
  by (simp add: audio_events_def is_audio_def split: option.splits)

lemma job_settles_running:
  "inflight st = Some (n, s) \<Longrightarrow>
   job_settles env st
     = tryToStartAnother
         (st\<lparr>inflight := None,
             sent := sent st @ audio_events s (textToSpeech env n s),
             journal := journal st @ [Delivered n (textToSpeech env n s)]\<rparr>)"
  by (simp add: job_settles_def Let_def)

lemma queue_inv_job_settles:
  assumes "queue_inv env fin (j # q) st"
  shows "queue_inv env (fin @ [j]) q (job_settles env st)"
proof -
  obtain n s where j: "j = (n, s)" by (cases j)
  from assms j have st:
    "submitted st = length fin + Suc (length q)"
    "filter is_audio (sent st) = concat (map (job_audio env) fin)"
    "inflight st = Some (n, s)" "waiting st = q"
    "journal st = concat (map (job_journal env) fin) @ [Started n]"
    by (simp_all add: queue_inv_def)
  define st' where "st' = st\<lparr>inflight := None,
             sent := sent st @ audio_events s (textToSpeech env n s),
             journal := journal st @ [Delivered n (textToSpeech env n s)]\<rparr>"
  have js: "job_settles env st = tryToStartAnother st'"
    unfolding st'_def using st(3) by (rule job_settles_running)
  have st': "inflight st' = None" "waiting st' = q" "submitted st' = length fin + Suc (length q)"
    "filter is_audio (sent st') = concat (map (job_audio env) (fin @ [j]))"
    "journal st' = concat (map (job_journal env) (fin @ [j]))"
    using st j by (simp_all add: st'_def is_audio_audio_events job_audio_def job_journal_def)
  show ?thesis
  proof (cases q)
    case Nil
    then have "tryToStartAnother st' = st'" using st' by (simp add: tryToStartAnother_empty)
    then show ?thesis using js st' Nil by (simp add: queue_inv_def)
  next
    case (Cons k r)
    then have "tryToStartAnother st'
        = st'\<lparr>waiting := r, inflight := Some k, journal := journal st' @ [Started (fst k)]\<rparr>"
      using st' by (simp add: tryToStartAnother_next)
    then show ?thesis using js st' Cons by (simp add: queue_inv_def)
  qed
qed

lemma job_settles_idle: "queue_inv env fin [] st \<Longrightarrow> job_settles env st = st"
  by (simp add: queue_inv_def job_settles_def)

lemma on_chunk_sentence:
  "trim c \<noteq> [] \<Longrightarrow>
   on_chunk st c
     = tryToStartAnother
         (st\<lparr>fullResponse :=
               fullResponse st @ (if fullResponse st = [] then [] else js '' '') @ trim c,
             sent := sent st @ [StatusEvent status_speaking],
             waiting := waiting st @ [(Suc (submitted st), trim c)],
             submitted := Suc (submitted st)\<rparr>)"
  by (simp add: on_chunk_def Let_def queue_add_def)

lemma queue_inv_on_chunk:
  assumes "queue_inv env fin pend st" "trim c \<noteq> []"
  shows "queue_inv env fin (pend @ [(Suc (length fin + length pend), trim c)]) (on_chunk st c)"
proof -
  define st' where "st' = st\<lparr>fullResponse :=
               fullResponse st @ (if fullResponse st = [] then [] else js '' '') @ trim c,
             sent := sent st @ [StatusEvent status_speaking],
             waiting := waiting st @ [(Suc (submitted st), trim c)],
             submitted := Suc (submitted st)\<rparr>"
  have oc: "on_chunk st c = tryToStartAnother st'"
    unfolding st'_def using assms(2) by (rule on_chunk_sentence)
  from assms(1) have sub: "submitted st = length fin + length pend"
    and au: "filter is_audio (sent st) = concat (map (job_audio env) fin)"
    by (simp_all add: queue_inv_def)
  have st': "submitted st' = length fin + Suc (length pend)"
    "filter is_audio (sent st') = concat (map (job_audio env) fin)"
    "waiting st' = waiting st @ [(Suc (length fin + length pend), trim c)]"
    "inflight st' = inflight st" "journal st' = journal st"
    using sub au by (simp_all add: st'_def is_audio_def)
  show ?thesis
  proof (cases pend)
    case Nil
    with assms(1) have "inflight st = None" "waiting st = []"
      "journal st = concat (map (job_journal env) fin)"
      by (simp_all add: queue_inv_def)
    with st' Nil have "tryToStartAnother st'
        = st'\<lparr>waiting := [], inflight := Some (Suc (length fin + length pend), trim c),
               journal := journal st' @ [Started (Suc (length fin + length pend))]\<rparr>"
      by (simp add: tryToStartAnother_next)
    then show ?thesis using oc st' Nil \<open>journal st = concat (map (job_journal env) fin)\<close>
      by (simp add: queue_inv_def)
  next
    case (Cons k r)
    with assms(1) have "inflight st = Some k" "waiting st = r"
      "journal st = concat (map (job_journal env) fin) @ [Started (fst k)]"
      by (simp_all add: queue_inv_def)
    moreover from this st' have "tryToStartAnother st' = st'"
      by (simp add: tryToStartAnother_busy)
    ultimately show ?thesis using oc st' Cons by (simp add: queue_inv_def)
  qed
qed

lemma tracks_init: "tracks env [] gen_init"
proof -
  have "[] @ [] = jobs_of []" by simp
  then show ?thesis unfolding tracks_def using queue_inv_init by blast
qed

lemma tracks_job_settles:
  assumes "tracks env ss st"
  shows "tracks env ss (job_settles env st)"
proof -
  from assms obtain fin pend where fp: "fin @ pend = jobs_of ss" "queue_inv env fin pend st"
    by (auto simp: tracks_def)
  show ?thesis
  proof (cases pend)
    case Nil
    with fp show ?thesis using assms by (simp add: job_settles_idle)
  next
    case (Cons j q)
    with fp have "queue_inv env (fin @ [j]) q (job_settles env st)"
      by (simp add: queue_inv_job_settles)
    moreover have "(fin @ [j]) @ q = jobs_of ss" using fp Cons by simp
    ultimately show ?thesis unfolding tracks_def by blast
  qed
qed

lemma tracks_on_chunk:
  assumes "tracks env ss st"
  shows "tracks env (ss @ sentences [c]) (on_chunk st c)"
proof (cases "trim c = []")
  case True
  with assms show ?thesis by (simp add: sentences_def on_chunk_def)
next
  case False
  from assms obtain fin pend where fp: "fin @ pend = jobs_of ss" "queue_inv env fin pend st"
    by (auto simp: tracks_def)
  have "length (fin @ pend) = length ss" unfolding fp(1) by simp
  then have len: "length fin + length pend = length ss" by simp
  have "queue_inv env fin (pend @ [(Suc (length ss), trim c)]) (on_chunk st c)"
    using queue_inv_on_chunk[OF fp(2) False] len by simp
  moreover have "fin @ (pend @ [(Suc (length ss), trim c)]) = jobs_of (ss @ [trim c])"
    using fp(1) by (simp add: jobs_of_snoc)
  ultimately have "tracks env (ss @ [trim c]) (on_chunk st c)"
    unfolding tracks_def by blast
  moreover have "sentences [c] = [trim c]" using False by (simp add: sentences_def)
  ultimately show ?thesis by simp
qed

lemma tracks_speak_loop:
  "tracks env ss st \<Longrightarrow> tracks env (ss @ sentences cs) (speak_loop env sched cs st)"
proof (induction env sched cs st arbitrary: ss rule: speak_loop.induct)
  case (1 env st)
  then show ?case by (simp add: sentences_def)
next
  case (2 env c cs st)
  from "2.IH"[OF tracks_on_chunk[OF "2.prems"]] show ?case
    by (simp add: sentences_append [symmetric])
next
  case (3 env sched cs st)
  from "3.IH"[OF tracks_job_settles[OF "3.prems"]] show ?case by simp
next
  case (4 env sched st)
  then show ?case by (simp add: sentences_def)
next
  case (5 env sched c cs st)
  from "5.IH"[OF tracks_on_chunk[OF "5.prems"]] show ?case
    by (simp add: sentences_append [symmetric])
qed

lemma queue_inv_onIdle:
  "queue_inv env fin pend st \<Longrightarrow> queue_inv env (fin @ pend) [] (onIdle env st)"
proof (induction pend arbitrary: fin st)
  case Nil
  then have "inflight st = None" by (simp add: queue_inv_def)
  then have "onIdle env st = st" by (rule onIdle_idle)
  then show ?case using Nil by simp
next
  case (Cons j q)
  then have "inflight st = Some j" by (simp add: queue_inv_def)
  then have "onIdle env st = onIdle env (job_settles env st)" by (rule onIdle_busy)
  then show ?case using Cons.IH[OF queue_inv_job_settles[OF Cons.prems]] by simp
qed

lemma run_settles_all:
  "queue_inv env (jobs_of (sentences cs)) []
     (onIdle env (speak_loop env sched cs gen_init))"
proof -
  have "tracks env ([] @ sentences cs) (speak_loop env sched cs gen_init)"
    by (rule tracks_speak_loop[OF tracks_init])
  then obtain fin pend where
    "fin @ pend = jobs_of (sentences cs)"
    "queue_inv env fin pend (speak_loop env sched cs gen_init)"
    by (auto simp: tracks_def)
  then have "queue_inv env (jobs_of (sentences cs)) []
      (onIdle env (speak_loop env sched cs gen_init))"
    using queue_inv_onIdle[of env fin pend "speak_loop env sched cs gen_init"] by simp
  then show ?thesis .
qed

lemma run_journal:
  "journal (onIdle env (speak_loop env sched cs gen_init))
     = concat (map (job_journal env) (jobs_of (sentences cs)))"
  using run_settles_all[of env cs sched] by (simp add: queue_inv_def)

lemma run_audio:
  "filter is_audio (sent (onIdle env (speak_loop env sched cs gen_init)))
     = concat (map (job_audio env) (jobs_of (sentences cs)))"
  using run_settles_all[of env cs sched] by (simp add: queue_inv_def)

lemma job_audio_explicit:
  "job_audio env =
     (\<lambda>(n, s). case textToSpeech env n s of
                  None \<Rightarrow> []
                | Some b64 \<Rightarrow> if b64 = [] then [] else [AudioEvent s b64])"
  by (rule ext) (auto simp: job_audio_def audio_events_def split: prod.splits option.splits)

lemma job_journal_explicit:
  "job_journal env = (\<lambda>(n, s). [Started n, Delivered n (textToSpeech env n s)])"
  by (rule ext) (auto simp: job_journal_def split: prod.splits)

subsection \<open>Events of a response, and the committed turn\<close>

lemma sent_tryToStartAnother [simp]: "sent (tryToStartAnother st) = sent st"
  by (simp add: tryToStartAnother_def split: option.splits list.splits)

lemma list_all_audio_events: "list_all loop_event (audio_events s a)"
  by (simp add: audio_events_def loop_event_def is_audio_def split: option.splits)

lemma loop_events_job_settles:
  "list_all loop_event (sent st) \<Longrightarrow> list_all loop_event (sent (job_settles env st))"
  by (simp add: job_settles_def Let_def list_all_audio_events split: option.splits prod.splits)

lemma loop_events_on_chunk:
  "list_all loop_event (sent st) \<Longrightarrow> list_all loop_event (sent (on_chunk st c))"
  by (simp add: on_chunk_def Let_def queue_add_def loop_event_def)

lemma loop_events_speak_loop:
  "list_all loop_event (sent st) \<Longrightarrow> list_all loop_event (sent (speak_loop env sched cs st))"
  by (induction env sched cs st rule: speak_loop.induct)
     (simp_all add: loop_events_job_settles loop_events_on_chunk)

lemma idle_not_loop_event: "\<not> loop_event (StatusEvent status_idle)"
  by (simp add: loop_event_def is_audio_def status_idle_def status_speaking_def js_def)

lemma idle_not_sent_in_loop:
  "StatusEvent status_idle \<notin> set (sent (speak_loop env sched cs gen_init))"
proof -
  have "list_all loop_event (sent (speak_loop env sched cs gen_init))"
    by (rule loop_events_speak_loop) (simp add: gen_init_def)
  then show ?thesis using idle_not_loop_event by (auto simp: list_all_iff)
qed

lemma on_message_completes:
  assumes "transcribeAudio env audioData = Some t"
    and "llama env (msgHistory @ [\<lparr>role = User, content = t\<rparr>]) = StreamEnds frags"
  shows "msgHistory_after (on_message env sched msgHistory (ArrayBuffer audioData))
     = msgHistory @ [\<lparr>role = User, content = t\<rparr>,
         \<lparr>role = Assistant, content = join_spaces (sentences (smoothStream frags))\<rparr>]"
  using assms
  by (simp add: on_message_def handleAudioInput_def generateAndSpeakResponse_def Let_def
      fullResponse_loop)

lemma cut_chunks_Nil: "cut_chunks [] = ([], [])"
  by (subst cut_chunks.simps) (simp add: chunking_def sentence_match_def)

lemma list_all_is_audio_events: "list_all is_audio (audio_events s a)"
  by (simp add: audio_events_def is_audio_def split: option.splits)

lemma sent_job_settles:
  "\<exists>late. sent (job_settles env st) = sent st @ late \<and> list_all is_audio late"
proof (cases "inflight st")
  case None
  then have "sent (job_settles env st) = sent st @ [] \<and> list_all is_audio []"
    by (simp add: job_settles_def)
  then show ?thesis by blast
next
  case (Some j)
  obtain n s where j: "j = (n, s)" by (cases j)
  with Some have "sent (job_settles env st) = sent st @ audio_events s (textToSpeech env n s)"
    by (simp add: job_settles_def Let_def)
  then show ?thesis using list_all_is_audio_events by blast
qed

lemma sent_onIdle:
  "\<exists>late. sent (onIdle env st) = sent st @ late \<and> list_all is_audio late"
proof (induction env st rule: onIdle.induct)
  case (1 env st)
  show ?case
  proof (cases "inflight st = None")
    case True
    then have "onIdle env st = st" by (rule onIdle_idle)
    then have "sent (onIdle env st) = sent st @ [] \<and> list_all is_audio []" by simp
    then show ?thesis by blast
  next
    case False
    then obtain j where "inflight st = Some j" by auto
    then have o: "onIdle env st = onIdle env (job_settles env st)" by (rule onIdle_busy)
    from "1.IH"[OF False] obtain l2 where
      l2: "sent (onIdle env (job_settles env st)) = sent (job_settles env st) @ l2"
        "list_all is_audio l2" by blast
    from sent_job_settles[of env st] obtain l1 where
      l1: "sent (job_settles env st) = sent st @ l1" "list_all is_audio l1" by blast
    have "sent (onIdle env st) = sent st @ (l1 @ l2)" using o l1(1) l2(1) by simp
    moreover have "list_all is_audio (l1 @ l2)" using l1(2) l2(2) by simp
    ultimately show ?thesis by blast
  qed
qed

lemma filter_is_audio_all: "list_all is_audio xs \<Longrightarrow> filter is_audio xs = xs"
  by (induction xs) simp_all

lemma late_audio:
  "list_all is_audio
     (drop (length (sent (speak_loop env sched cs gen_init)))
        (sent (onIdle env (speak_loop env sched cs gen_init)))) \<and>
   filter is_audio (sent (speak_loop env sched cs gen_init))
     @ drop (length (sent (speak_loop env sched cs gen_init)))
         (sent (onIdle env (speak_loop env sched cs gen_init)))
     = concat (map (job_audio env) (jobs_of (sentences cs)))"
proof -
  let ?st = "speak_loop env sched cs gen_init"
  from sent_onIdle[of env ?st] obtain late where
    l: "sent (onIdle env ?st) = sent ?st @ late" "list_all is_audio late" by blast
  have d: "drop (length (sent ?st)) (sent (onIdle env ?st)) = late" using l(1) by simp
  have "filter is_audio (sent (onIdle env ?st)) = filter is_audio (sent ?st) @ late"
    using l by (simp add: filter_is_audio_all)
  then have "filter is_audio (sent ?st) @ late = concat (map (job_audio env) (jobs_of (sentences cs)))"
    using run_audio[of env sched cs] by simp
  then show ?thesis using d l(2) by simp
qed

lemma loop_events_no_error: "list_all loop_event xs \<Longrightarrow> filter is_error xs = []"
  by (induction xs) (auto simp: loop_event_def is_error_def is_audio_def split: out_event.splits)

lemma loop_sends_no_error:
  "filter is_error (sent (speak_loop env sched cs gen_init)) = []"
proof -
  have "list_all loop_event (sent (speak_loop env sched cs gen_init))"
    by (rule loop_events_speak_loop) (simp add: gen_init_def)
  then show ?thesis by (rule loop_events_no_error)
qed

lemma on_message_stream_throws:
  assumes "transcribeAudio env audioData = Some t"
    and "llama env (msgHistory @ [\<lparr>role = User, content = t\<rparr>]) = StreamThrows frags e"
  shows "on_message env sched msgHistory (ArrayBuffer audioData)
     = \<lparr>msgHistory_after = msgHistory @ [\<lparr>role = User, content = t\<rparr>],
        emitted = [StatusEvent status_processing, TextEvent t, StatusEvent status_speaking]
          @ sent (speak_loop env sched (fst (smooth_feed [] frags)) gen_init)
          @ [ErrorEvent (error_text e)],
        emitted_late =
          drop (length (sent (speak_loop env sched (fst (smooth_feed [] frags)) gen_init)))
            (sent (onIdle env (speak_loop env sched (fst (smooth_feed [] frags)) gen_init)))\<rparr>"
  using assms
  by (simp add: on_message_def handleAudioInput_def generateAndSpeakResponse_def Let_def)

text \<open>
  A completion stream that ends without any text is not an exception for the loop: the
  turn completes and an assistant turn of empty content is committed.
\<close>

lemma empty_stream_commits_empty_turn:
  assumes "transcribeAudio env audioData = Some t"
    and "llama env (msgHistory @ [\<lparr>role = User, content = t\<rparr>]) = StreamEnds []"
  shows "msgHistory_after (on_message env sched msgHistory (ArrayBuffer audioData))
     = msgHistory @ [\<lparr>role = User, content = t\<rparr>, \<lparr>role = Assistant, content = []\<rparr>]"
  using on_message_completes[OF assms] by (simp add: smoothStream_def sentences_def)

subsection \<open>The bytes of an encoded file\<close>

lemma assemble32:
  fixes w :: "32 word"
  shows "ucast (ucast w :: byte) OR push_bit 8 (ucast (ucast (drop_bit 8 w) :: byte))
       OR push_bit 16 (ucast (ucast (drop_bit 16 w) :: byte))
       OR push_bit 24 (ucast (ucast (drop_bit 24 w) :: byte)) = w" (is "?l = w")
proof (rule bit_word_eqI)
  fix n :: nat
  assume "n < LENGTH(32)"
  then consider "n < 8" | "8 \<le> n \<and> n < 16" | "16 \<le> n \<and> n < 24" | "24 \<le> n \<and> n < 32"
    by fastforce
  then show "bit ?l n = bit w n"
    by cases (auto simp: bit_simps)
qed

lemma assemble16:
  fixes w :: "16 word"
  shows "ucast (ucast w :: byte) OR push_bit 8 (ucast (ucast (drop_bit 8 w) :: byte)) = w"
    (is "?l = w")
proof (rule bit_word_eqI)
  fix n :: nat
  assume "n < LENGTH(16)"
  then consider "n < 8" | "8 \<le> n \<and> n < 16"
    by fastforce
  then show "bit ?l n = bit w n"
    by cases (auto simp: bit_simps)
qed

lemma word32_roundtrip: "word32_of le (bytes32 le w) = w"
  by (cases le) (simp_all add: bytes32_def assemble32)

lemma word16_roundtrip: "word16_of le (bytes16 le w) = w"
  by (cases le) (simp_all add: bytes16_def assemble16)


lemma length_wav_header: "length (wav_header n r) = 44"
  by (simp add: wav_header_def bytes32_def bytes16_def js_def)

lemma length_sample_bytes: "length (sample_bytes x) = 2"
  by (simp add: sample_bytes_def bytes16_def)

lemma length_concat_sample_bytes: "length (concat (map sample_bytes xs)) = 2 * length xs"
  by (induction xs) (simp_all add: length_sample_bytes)

lemma write_samples_append:
  "length pre = off \<Longrightarrow> 2 * length xs \<le> length rest \<Longrightarrow>
   write_samples (pre @ rest) off xs
     = Some (pre @ concat (map sample_bytes xs) @ drop (2 * length xs) rest)"
proof (induction xs arbitrary: pre off rest)
  case Nil
  then show ?case by simp
next
  case (Cons x xs)
  from Cons.prems have s: "setInt16 (pre @ rest) off (pcmSample x) True
      = Some ((pre @ sample_bytes x) @ drop 2 rest)"
    by (simp add: setInt16_def put_bytes_def sample_bytes_def length_sample_bytes bytes16_def)
  have "write_samples ((pre @ sample_bytes x) @ drop 2 rest) (off + 2) xs
      = Some ((pre @ sample_bytes x) @ concat (map sample_bytes xs)
              @ drop (2 * length xs) (drop 2 rest))"
    using Cons.prems by (intro Cons.IH) (simp_all add: length_sample_bytes)
  then show ?case using s by (simp add: add.commute)
qed

lemma zeros_split: "replicate (nat (44 + int n * 2)) (0::byte) = replicate 44 0 @ replicate (2 * n) 0"
proof -
  have "nat (44 + int n * 2) = 44 + 2 * n" by simp
  then show ?thesis by (simp add: replicate_add)
qed

lemma zeros44: "replicate 44 (0::byte) =
  [0,0,0,0,0,0,0,0,0,0,0,0,0,0,0,0,0,0,0,0,0,0,0,0,0,0,0,0,0,0,0,0,0,0,0,0,0,0,0,0,0,0,0,0]"
  by code_simp

lemma encode_header_then_samples:
  "encodeWavPCM16 samples r
     = write_samples (wav_header (length samples) r @ replicate (2 * length samples) 0) 44 samples"
proof -
  have z: "replicate (nat (44 + int (length samples) * (16 div 8))) (0::byte)
      = replicate 44 0 @ replicate (2 * length samples) 0"
    using zeros_split[of "length samples"] by simp
  show ?thesis
    unfolding encodeWavPCM16_def Let_def z zeros44
    by (simp add: wav_header_def setUint32_def setUint16_def setUint8_def put_bytes_def
        bytes32_def bytes16_def js_def)
qed

lemma encodeWavPCM16_bytes:
  "encodeWavPCM16 samples r
     = Some (wav_header (length samples) r @ concat (map sample_bytes samples))"
  unfolding encode_header_then_samples
  by (subst write_samples_append) (simp_all add: length_wav_header)


lemma uint_word32_of_int:
  assumes "0 \<le> k" "k < 4294967296"
  shows "uint (word_of_int k :: 32 word) = k"
  using assms by (simp add: uint_word_of_int)

lemma get_bytes_at:
  "length pre = off \<Longrightarrow> length bs = n \<Longrightarrow> get_bytes (pre @ bs @ post) off n = Some bs"
  by (simp add: get_bytes_def)

lemma length_bytes32 [simp]: "length (bytes32 le w) = 4"
  by (simp add: bytes32_def Let_def)

lemma length_bytes16 [simp]: "length (bytes16 le w) = 2"
  by (simp add: bytes16_def Let_def)

lemma getUint32_at:
  assumes "length pre = off"
  shows "getUint32 (pre @ bytes32 le w @ post) off le = Some (uint w)"
proof -
  have "get_bytes (pre @ bytes32 le w @ post) off 4 = Some (bytes32 le w)"
    using assms by (intro get_bytes_at) simp_all
  then show ?thesis by (simp add: getUint32_def word32_roundtrip)
qed

lemma getUint16_at:
  assumes "length pre = off"
  shows "getUint16 (pre @ bytes16 le w @ post) off le = Some (uint w)"
proof -
  have "get_bytes (pre @ bytes16 le w @ post) off 2 = Some (bytes16 le w)"
    using assms by (intro get_bytes_at) simp_all
  then show ?thesis by (simp add: getUint16_def word16_roundtrip)
qed


lemma header_numChannels: "getUint16 (wav_header n r @ d) 22 True = Some 1"
proof -
  let ?pre = "map (\<lambda>c. ToUint8 (uint c)) (js ''RIFF'') @ bytes32 True (ToUint32 (44 + int n * 2 - 8))
        @ map (\<lambda>c. ToUint8 (uint c)) (js ''WAVE'') @ map (\<lambda>c. ToUint8 (uint c)) (js ''fmt '')
        @ bytes32 True (ToUint32 16) @ bytes16 True (ToUint16 1)"
  let ?post = "bytes32 True (ToUint32 r) @ bytes32 True (ToUint32 (r * 2))
        @ bytes16 True (ToUint16 2) @ bytes16 True (ToUint16 16)
        @ map (\<lambda>c. ToUint8 (uint c)) (js ''data'') @ bytes32 True (ToUint32 (int n * 2)) @ d"
  have eq: "wav_header n r @ d = ?pre @ bytes16 True (ToUint16 1) @ ?post"
    by (simp add: wav_header_def)
  have "getUint16 (?pre @ bytes16 True (ToUint16 1) @ ?post) 22 True = Some (uint (ToUint16 1))"
    by (rule getUint16_at) (simp add: js_def)
  then show ?thesis unfolding eq by (simp add: ToUint16_def)
qed

lemma header_sampleRate:
  "getUint32 (wav_header n r @ d) 24 True = Some (uint (ToUint32 r))"
proof -
  let ?pre = "map (\<lambda>c. ToUint8 (uint c)) (js ''RIFF'') @ bytes32 True (ToUint32 (44 + int n * 2 - 8))
        @ map (\<lambda>c. ToUint8 (uint c)) (js ''WAVE'') @ map (\<lambda>c. ToUint8 (uint c)) (js ''fmt '')
        @ bytes32 True (ToUint32 16) @ bytes16 True (ToUint16 1) @ bytes16 True (ToUint16 1)"
  let ?post = "bytes32 True (ToUint32 (r * 2))
        @ bytes16 True (ToUint16 2) @ bytes16 True (ToUint16 16)
        @ map (\<lambda>c. ToUint8 (uint c)) (js ''data'') @ bytes32 True (ToUint32 (int n * 2)) @ d"
  have eq: "wav_header n r @ d = ?pre @ bytes32 True (ToUint32 r) @ ?post"
    by (simp add: wav_header_def)
  have "getUint32 (?pre @ bytes32 True (ToUint32 r) @ ?post) 24 True = Some (uint (ToUint32 r))"
    by (rule getUint32_at) (simp add: js_def)
  then show ?thesis unfolding eq .
qed

lemma header_bitsPerSample: "getUint16 (wav_header n r @ d) 34 True = Some 16"
proof -
  let ?pre = "map (\<lambda>c. ToUint8 (uint c)) (js ''RIFF'') @ bytes32 True (ToUint32 (44 + int n * 2 - 8))
        @ map (\<lambda>c. ToUint8 (uint c)) (js ''WAVE'') @ map (\<lambda>c. ToUint8 (uint c)) (js ''fmt '')
        @ bytes32 True (ToUint32 16) @ bytes16 True (ToUint16 1) @ bytes16 True (ToUint16 1)
        @ bytes32 True (ToUint32 r) @ bytes32 True (ToUint32 (r * 2))
        @ bytes16 True (ToUint16 2)"
  let ?post = "map (\<lambda>c. ToUint8 (uint c)) (js ''data'') @ bytes32 True (ToUint32 (int n * 2)) @ d"
  have eq: "wav_header n r @ d = ?pre @ bytes16 True (ToUint16 16) @ ?post"
    by (simp add: wav_header_def)
  have "getUint16 (?pre @ bytes16 True (ToUint16 16) @ ?post) 34 True = Some (uint (ToUint16 16))"
    by (rule getUint16_at) (simp add: js_def)
  then show ?thesis unfolding eq by (simp add: ToUint16_def)
qed

lemma header_dataSize:
  "getUint32 (wav_header n r @ d) 40 True = Some (uint (ToUint32 (int n * 2)))"
proof -
  let ?pre = "map (\<lambda>c. ToUint8 (uint c)) (js ''RIFF'') @ bytes32 True (ToUint32 (44 + int n * 2 - 8))
        @ map (\<lambda>c. ToUint8 (uint c)) (js ''WAVE'') @ map (\<lambda>c. ToUint8 (uint c)) (js ''fmt '')
        @ bytes32 True (ToUint32 16) @ bytes16 True (ToUint16 1) @ bytes16 True (ToUint16 1)
        @ bytes32 True (ToUint32 r) @ bytes32 True (ToUint32 (r * 2))
        @ bytes16 True (ToUint16 2) @ bytes16 True (ToUint16 16)
        @ map (\<lambda>c. ToUint8 (uint c)) (js ''data'')"
  have eq: "wav_header n r @ d = ?pre @ bytes32 True (ToUint32 (int n * 2)) @ d"
    by (simp add: wav_header_def)
  have "getUint32 (?pre @ bytes32 True (ToUint32 (int n * 2)) @ d) 40 True
      = Some (uint (ToUint32 (int n * 2)))"
    by (rule getUint32_at) (simp add: js_def)
  then show ?thesis unfolding eq .
qed



lemma clamp_Finite: "clamp_sample (Finite a) = Finite (max (- 1) (min 1 a))"
  by (simp add: clamp_sample_def)





section \<open>The claims\<close>

text \<open>
  C1. Whatever the schedule, that is however long each synthesis call takes, the journal of
  a response whose stream ends is: job 1 started, job 1 delivered, job 2 started, job 2
  delivered, and so on to the last job. The jobs carry the sequence indices 1 to N of the
  N utterances in emission order; no call is started before the result of the one before
  it has come back; and the audio events on the socket are, in this order, one event with
  the utterance and its audio for every job whose call gave a non-empty audio.
\<close>

theorem dispatcher_in_order:
  "map fst (jobs_of (sentences chunks)) = [1..<Suc (length (sentences chunks))] \<and>
   journal (onIdle env (speak_loop env sched chunks gen_init))
     = concat (map (\<lambda>(n, s). [Started n, Delivered n (textToSpeech env n s)])
         (jobs_of (sentences chunks))) \<and>
   filter is_audio (sent (onIdle env (speak_loop env sched chunks gen_init)))
     = concat (map (\<lambda>(n, s). case textToSpeech env n s of
                                 None \<Rightarrow> []
                               | Some b64 \<Rightarrow> if b64 = [] then [] else [AudioEvent s b64])
         (jobs_of (sentences chunks)))"
proof -
  have "map fst (jobs_of (sentences chunks)) = [1..<Suc (length (sentences chunks))]"
    by (simp add: jobs_of_def)
  then show ?thesis
    by (simp only: run_journal run_audio job_audio_explicit job_journal_explicit simp_thms)
qed

text \<open>
  Three utterances whose synthesis calls all succeed, with the calls settling between the
  chunks: the journal, the audio events and all the events sent.
\<close>

theorem dispatcher_in_order_witness:
  "journal (onIdle counting_env
      (speak_loop counting_env [False, True, False, False, True]
         (smoothStream [js ''One. Two. Three.'']) gen_init))
     = [Started 1, Delivered 1 (Some (js ''A'')), Started 2, Delivered 2 (Some (js ''AA'')),
        Started 3, Delivered 3 (Some (js ''AAA''))] \<and>
   filter is_audio (sent (onIdle counting_env
      (speak_loop counting_env [False, True, False, False, True]
         (smoothStream [js ''One. Two. Three.'']) gen_init)))
     = [AudioEvent (js ''One.'') (js ''A''), AudioEvent (js ''Two.'') (js ''AA''),
        AudioEvent (js ''Three.'') (js ''AAA'')] \<and>
   sent (onIdle counting_env
      (speak_loop counting_env [False, True, False, False, True]
         (smoothStream [js ''One. Two. Three.'']) gen_init))
     = [StatusEvent status_speaking, AudioEvent (js ''One.'') (js ''A''),
        StatusEvent status_speaking, StatusEvent status_speaking,
        AudioEvent (js ''Two.'') (js ''AA''), AudioEvent (js ''Three.'') (js ''AAA'')]"
proof -
  let ?cs = "smoothStream [js ''One. Two. Three.'']"
  let ?st = "onIdle counting_env
      (speak_loop counting_env [False, True, False, False, True] ?cs gen_init)"
  have j: "concat (map (\<lambda>(n, s). [Started n, Delivered n (textToSpeech counting_env n s)])
         (jobs_of (sentences ?cs)))
     = [Started 1, Delivered 1 (Some (js ''A'')), Started 2, Delivered 2 (Some (js ''AA'')),
        Started 3, Delivered 3 (Some (js ''AAA''))]"
    by code_simp
  have a: "concat (map (\<lambda>(n, s). case textToSpeech counting_env n s of
                                 None \<Rightarrow> []
                               | Some b64 \<Rightarrow> if b64 = [] then [] else [AudioEvent s b64])
         (jobs_of (sentences ?cs)))
     = [AudioEvent (js ''One.'') (js ''A''), AudioEvent (js ''Two.'') (js ''AA''),
        AudioEvent (js ''Three.'') (js ''AAA'')]"
    by code_simp
  have s: "sent ?st
     = [StatusEvent status_speaking, AudioEvent (js ''One.'') (js ''A''),
        StatusEvent status_speaking, StatusEvent status_speaking,
        AudioEvent (js ''Two.'') (js ''AA''), AudioEvent (js ''Three.'') (js ''AAA'')]"
    by code_simp
  note t = dispatcher_in_order[of ?cs counting_env "[False, True, False, False, True]",
      unfolded j a]
  show ?thesis using t s by blast
qed

text \<open>
  C2. If the synthesis call for an utterance throws, no audio event is sent for that
  utterance, the audio events sent are those of the utterances before it followed by those
  of the utterances after it, and every job, the later ones too, is started and
  delivered.
\<close>

theorem failed_synthesis_is_skipped:
  assumes "k < length (sentences chunks)"
    and "melotts env (Suc k) (sentences chunks ! k) = TtsThrows e"
  shows "job_audio env (jobs_of (sentences chunks) ! k) = [] \<and>
     filter is_audio (sent (onIdle env (speak_loop env sched chunks gen_init)))
       = concat (map (job_audio env) (take k (jobs_of (sentences chunks))))
         @ concat (map (job_audio env) (drop (Suc k) (jobs_of (sentences chunks)))) \<and>
     journal (onIdle env (speak_loop env sched chunks gen_init))
       = concat (map (job_journal env) (jobs_of (sentences chunks)))"
proof -
  let ?js = "jobs_of (sentences chunks)"
  have k: "k < length ?js" using assms(1) by simp
  have nth: "?js ! k = (Suc k, sentences chunks ! k)"
    using assms(1) by (simp add: jobs_of_def nth_enumerate_eq)
  have none: "job_audio env (?js ! k) = []"
    using assms(2) by (simp add: nth job_audio_def textToSpeech_def audio_events_def)
  have "?js = take k ?js @ (?js ! k) # drop (Suc k) ?js"
    using k by (simp add: id_take_nth_drop [symmetric])
  then have "concat (map (job_audio env) ?js)
      = concat (map (job_audio env) (take k ?js)) @ job_audio env (?js ! k)
        @ concat (map (job_audio env) (drop (Suc k) ?js))"
    by (metis concat.simps(2) concat_append list.simps(9) map_append)
  with none show ?thesis by (simp add: run_audio run_journal)
qed

text \<open>Three utterances, the second synthesis call throws: the audio of the first and third.\<close>

theorem failed_synthesis_witness:
  "1 < length (sentences [js ''A. '', js ''B. '', js ''C.'']) \<and>
   melotts example_env (Suc 1) (sentences [js ''A. '', js ''B. '', js ''C.''] ! 1)
     = TtsThrows (ErrorObject (js ''tts down'')) \<and>
   filter is_audio
     (sent (onIdle example_env
        (speak_loop example_env [False, True] [js ''A. '', js ''B. '', js ''C.''] gen_init)))
     = [AudioEvent (js ''A.'') (js ''QUJD''), AudioEvent (js ''C.'') (js ''QUJD'')]"
proof -
  let ?cs = "[js ''A. '', js ''B. '', js ''C.'']"
  have a: "1 < length (sentences ?cs)" by code_simp
  have b: "melotts example_env (Suc 1) (sentences ?cs ! 1)
     = TtsThrows (ErrorObject (js ''tts down''))"
    by (simp add: example_env_def)
  have c: "concat (map (job_audio example_env) (take 1 (jobs_of (sentences ?cs))))
         @ concat (map (job_audio example_env) (drop (Suc 1) (jobs_of (sentences ?cs))))
     = [AudioEvent (js ''A.'') (js ''QUJD''), AudioEvent (js ''C.'') (js ''QUJD'')]"
    by code_simp
  from failed_synthesis_is_skipped[OF a b, of "[False, True]"] have
    "filter is_audio
       (sent (onIdle example_env (speak_loop example_env [False, True] ?cs gen_init)))
     = concat (map (job_audio example_env) (take 1 (jobs_of (sentences ?cs))))
         @ concat (map (job_audio example_env) (drop (Suc 1) (jobs_of (sentences ?cs))))"
    by blast
  with a b c show ?thesis by (simp only: simp_thms)
qed

text \<open>
  C3, as amended. When the transcription is not empty and the completion stream ends, the
  assistant turn committed to the history is exactly the utterances joined with single
  spaces, after the user turn; and this text has the non-white-space characters of the
  full response, in the same order. It need not be the trimmed full response.
\<close>

theorem assistant_turn_is_joined_utterances:
  assumes "transcribeAudio env audioData = Some t"
    and "llama env (msgHistory @ [\<lparr>role = User, content = t\<rparr>]) = StreamEnds frags"
  shows "msgHistory_after (on_message env sched msgHistory (ArrayBuffer audioData))
     = msgHistory @ [\<lparr>role = User, content = t\<rparr>,
         \<lparr>role = Assistant, content = join_spaces (sentences (smoothStream frags))\<rparr>] \<and>
     visible (join_spaces (sentences (smoothStream frags))) = visible (concat frags)"
  using on_message_completes[OF assms]
  by (simp add: visible_join_spaces visible_concat_sentences smoothStream_concat)

text \<open>
  C3 as stated fails: the fragments "Pi is 3." and "14." give the utterances "Pi is 3." and
  "14." (the terminator at the end of the buffer is a cut), joined "Pi is 3. 14.", while
  the full response is "Pi is 3.14.".
\<close>

theorem joined_utterances_counterexample:
  "join_spaces (sentences (smoothStream [js ''Pi is 3.'', js ''14.''])) = js ''Pi is 3. 14.'' \<and>
   trim (concat [js ''Pi is 3.'', js ''14.'']) = js ''Pi is 3.14.'' \<and>
   join_spaces (sentences (smoothStream [js ''Pi is 3.'', js ''14.'']))
     \<noteq> trim (concat [js ''Pi is 3.'', js ''14.''])"
  by code_simp

theorem assistant_turn_witness:
  "transcribeAudio example_env [1] = Some (js ''hello'') \<and>
   llama example_env ([] @ [\<lparr>role = User, content = js ''hello''\<rparr>])
     = StreamEnds [js ''Pi is 3.'', js ''14.''] \<and>
   msgHistory_after (on_message example_env [True, False] [] (ArrayBuffer [1]))
     = [\<lparr>role = User, content = js ''hello''\<rparr>,
        \<lparr>role = Assistant, content = js ''Pi is 3. 14.''\<rparr>] \<and>
   visible (js ''Pi is 3. 14.'') = visible (concat [js ''Pi is 3.'', js ''14.''])"
proof -
  have a: "transcribeAudio example_env [1] = Some (js ''hello'')"
    by (simp add: transcribeAudio_def example_env_def js_def)
  have b: "llama example_env ([] @ [\<lparr>role = User, content = js ''hello''\<rparr>])
     = StreamEnds [js ''Pi is 3.'', js ''14.'']"
    by (simp add: example_env_def)
  have c: "join_spaces (sentences (smoothStream [js ''Pi is 3.'', js ''14.''])) = js ''Pi is 3. 14.''"
    by code_simp
  from assistant_turn_is_joined_utterances[OF a b, of "[True, False]"] a b c
  show ?thesis by simp
qed

text \<open>
  C4, as amended. An exception of the transcription call is caught inside
  \<open>transcribeAudio\<close>: the turn ends as a silent one does, with the processing and idle
  statuses, no error event, and the history as it was. An exception thrown to the loop
  while the completion stream is read aborts the turn: the user turn stays in the history
  and no assistant turn is added, and exactly one error event is sent, with the
  exception's message (or "Unknown error"). The utterances cut before the exception are
  still synthesized: their audio events are all sent, in order, those of the jobs still
  queued after the handler has returned. Nothing is said here of the idle status on that
  path.
\<close>

theorem failure_semantics:
  "(whisper env audioData = WhisperThrows e \<longrightarrow>
      on_message env sched msgHistory (ArrayBuffer audioData)
        = \<lparr>msgHistory_after = msgHistory,
           emitted = [StatusEvent status_processing, StatusEvent status_idle],
           emitted_late = []\<rparr>) \<and>
   (transcribeAudio env audioData = Some t \<and>
    llama env (msgHistory @ [\<lparr>role = User, content = t\<rparr>]) = StreamThrows frags e \<longrightarrow>
      msgHistory_after (on_message env sched msgHistory (ArrayBuffer audioData))
        = msgHistory @ [\<lparr>role = User, content = t\<rparr>] \<and>
      filter is_error (emitted (on_message env sched msgHistory (ArrayBuffer audioData)))
        = [ErrorEvent (error_text e)] \<and>
      list_all is_audio (emitted_late (on_message env sched msgHistory (ArrayBuffer audioData))) \<and>
      filter is_audio (emitted (on_message env sched msgHistory (ArrayBuffer audioData)))
        @ emitted_late (on_message env sched msgHistory (ArrayBuffer audioData))
        = concat (map (\<lambda>(n, s). case textToSpeech env n s of
                                    None \<Rightarrow> []
                                  | Some b64 \<Rightarrow> if b64 = [] then [] else [AudioEvent s b64])
            (jobs_of (sentences (fst (smooth_feed [] frags))))))"
proof (intro conjI impI)
  assume "whisper env audioData = WhisperThrows e"
  then show "on_message env sched msgHistory (ArrayBuffer audioData)
        = \<lparr>msgHistory_after = msgHistory,
           emitted = [StatusEvent status_processing, StatusEvent status_idle],
           emitted_late = []\<rparr>"
    by (simp add: on_message_def handleAudioInput_def transcribeAudio_def)
next
  let ?r = "on_message env sched msgHistory (ArrayBuffer audioData)"
  let ?st = "speak_loop env sched (fst (smooth_feed [] frags)) gen_init"
  assume a: "transcribeAudio env audioData = Some t \<and>
    llama env (msgHistory @ [\<lparr>role = User, content = t\<rparr>]) = StreamThrows frags e"
  then have r: "?r
     = \<lparr>msgHistory_after = msgHistory @ [\<lparr>role = User, content = t\<rparr>],
        emitted = [StatusEvent status_processing, TextEvent t, StatusEvent status_speaking]
          @ sent ?st @ [ErrorEvent (error_text e)],
        emitted_late = drop (length (sent ?st)) (sent (onIdle env ?st))\<rparr>"
    by (simp add: on_message_stream_throws)
  show "msgHistory_after ?r = msgHistory @ [\<lparr>role = User, content = t\<rparr>]"
    by (simp add: r)
  show "filter is_error (emitted ?r) = [ErrorEvent (error_text e)]"
    by (simp add: r loop_sends_no_error is_error_def)
  show "list_all is_audio (emitted_late ?r)"
    using late_audio[of env sched "fst (smooth_feed [] frags)"] by (simp add: r)
  have "filter is_audio (emitted ?r) = filter is_audio (sent ?st)"
    by (simp add: r is_audio_def)
  then show "filter is_audio (emitted ?r) @ emitted_late ?r
        = concat (map (\<lambda>(n, s). case textToSpeech env n s of
                                    None \<Rightarrow> []
                                  | Some b64 \<Rightarrow> if b64 = [] then [] else [AudioEvent s b64])
            (jobs_of (sentences (fst (smooth_feed [] frags)))))"
    using late_audio[of env sched "fst (smooth_feed [] frags)"]
    by (simp add: r job_audio_explicit)
qed

text \<open>
  C4 as stated fails on both paths. The transcription call throws and the events are the
  two statuses, with no error event. The completion stream throws and the events end with
  the error event: no idle status is among them, though the other paths send one.
\<close>

theorem failure_events_counterexample:
  "whisper example_env [0] = WhisperThrows (ErrorObject (js ''stt down'')) \<and>
   emitted (on_message example_env [] [] (ArrayBuffer [0]))
     = [StatusEvent status_processing, StatusEvent status_idle] \<and>
   transcribeAudio example_env [1] = Some (js ''hello'') \<and>
   llama example_env ([\<lparr>role = Assistant, content = js ''Hi.''\<rparr>]
        @ [\<lparr>role = User, content = js ''hello''\<rparr>])
     = StreamThrows [js ''Hi. ''] (ErrorObject (js ''llm down'')) \<and>
   emitted (on_message example_env [True] [\<lparr>role = Assistant, content = js ''Hi.''\<rparr>]
        (ArrayBuffer [1]))
     = [StatusEvent status_processing, TextEvent (js ''hello''), StatusEvent status_speaking,
        StatusEvent status_speaking, ErrorEvent (js ''llm down'')]"
proof -
  let ?h = "[\<lparr>role = Assistant, content = js ''Hi.''\<rparr>]"
  have a: "whisper example_env [0] = WhisperThrows (ErrorObject (js ''stt down''))"
    by (simp add: example_env_def)
  have b: "emitted (on_message example_env [] [] (ArrayBuffer [0]))
     = [StatusEvent status_processing, StatusEvent status_idle]"
    by (simp add: example_env_def on_message_def handleAudioInput_def transcribeAudio_def)
  have c: "transcribeAudio example_env [1] = Some (js ''hello'')"
    by (simp add: transcribeAudio_def example_env_def js_def)
  have d: "llama example_env (?h @ [\<lparr>role = User, content = js ''hello''\<rparr>])
     = StreamThrows [js ''Hi. ''] (ErrorObject (js ''llm down''))"
    by (simp add: example_env_def)
  have e: "sent (speak_loop example_env [True] (fst (smooth_feed [] [js ''Hi. ''])) gen_init)
     = [StatusEvent status_speaking]"
    by code_simp
  note r = on_message_stream_throws[OF c d, of "[True]", unfolded e]
  have "emitted (on_message example_env [True] ?h (ArrayBuffer [1]))
     = [StatusEvent status_processing, TextEvent (js ''hello''), StatusEvent status_speaking,
        StatusEvent status_speaking, ErrorEvent (js ''llm down'')]"
    by (simp add: r error_text_def)
  with a b c d show ?thesis by blast
qed

theorem failure_semantics_witness:
  "whisper example_env [0] = WhisperThrows (ErrorObject (js ''stt down'')) \<and>
   on_message example_env [] [] (ArrayBuffer [0])
     = \<lparr>msgHistory_after = [],
        emitted = [StatusEvent status_processing, StatusEvent status_idle],
        emitted_late = []\<rparr> \<and>
   transcribeAudio example_env [1] = Some (js ''hello'') \<and>
   llama example_env ([\<lparr>role = Assistant, content = js ''Hi.''\<rparr>]
        @ [\<lparr>role = User, content = js ''hello''\<rparr>])
     = StreamThrows [js ''Hi. ''] (ErrorObject (js ''llm down'')) \<and>
   msgHistory_after (on_message example_env [True] [\<lparr>role = Assistant, content = js ''Hi.''\<rparr>]
        (ArrayBuffer [1]))
     = [\<lparr>role = Assistant, content = js ''Hi.''\<rparr>, \<lparr>role = User, content = js ''hello''\<rparr>] \<and>
   filter is_error
     (emitted (on_message example_env [True] [\<lparr>role = Assistant, content = js ''Hi.''\<rparr>]
        (ArrayBuffer [1])))
     = [ErrorEvent (js ''llm down'')] \<and>
   filter is_audio
     (emitted (on_message example_env [True] [\<lparr>role = Assistant, content = js ''Hi.''\<rparr>]
        (ArrayBuffer [1])))
     @ emitted_late (on_message example_env [True] [\<lparr>role = Assistant, content = js ''Hi.''\<rparr>]
        (ArrayBuffer [1]))
     = [AudioEvent (js ''Hi.'') (js ''QUJD'')]"
proof -
  let ?h = "[\<lparr>role = Assistant, content = js ''Hi.''\<rparr>]"
  have a: "whisper example_env [0] = WhisperThrows (ErrorObject (js ''stt down''))"
    by (simp add: example_env_def)
  have b: "transcribeAudio example_env [1] = Some (js ''hello'')"
    by (simp add: transcribeAudio_def example_env_def js_def)
  have c: "llama example_env (?h @ [\<lparr>role = User, content = js ''hello''\<rparr>])
     = StreamThrows [js ''Hi. ''] (ErrorObject (js ''llm down''))"
    by (simp add: example_env_def)
  have e: "error_text (ErrorObject (js ''llm down'')) = js ''llm down''"
    by (simp add: error_text_def)
  have j: "concat (map (\<lambda>(n, s). case textToSpeech example_env n s of
                                    None \<Rightarrow> []
                                  | Some b64 \<Rightarrow> if b64 = [] then [] else [AudioEvent s b64])
            (jobs_of (sentences (fst (smooth_feed [] [js ''Hi. ''])))))
     = [AudioEvent (js ''Hi.'') (js ''QUJD'')]"
    by code_simp
  from failure_semantics[of example_env "[0]" "ErrorObject (js ''stt down'')" "[]" "[]"] a
  have f: "on_message example_env [] [] (ArrayBuffer [0])
     = \<lparr>msgHistory_after = [],
        emitted = [StatusEvent status_processing, StatusEvent status_idle],
        emitted_late = []\<rparr>" by blast
  from failure_semantics[of example_env "[1]" "ErrorObject (js ''llm down'')" "[True]" ?h
      "js ''hello''" "[js ''Hi. '']"] b c
  have g: "msgHistory_after (on_message example_env [True] ?h (ArrayBuffer [1]))
        = ?h @ [\<lparr>role = User, content = js ''hello''\<rparr>]"
    and h: "filter is_error (emitted (on_message example_env [True] ?h (ArrayBuffer [1])))
        = [ErrorEvent (error_text (ErrorObject (js ''llm down'')))]"
    and k: "filter is_audio (emitted (on_message example_env [True] ?h (ArrayBuffer [1])))
        @ emitted_late (on_message example_env [True] ?h (ArrayBuffer [1]))
        = concat (map (\<lambda>(n, s). case textToSpeech example_env n s of
                                    None \<Rightarrow> []
                                  | Some b64 \<Rightarrow> if b64 = [] then [] else [AudioEvent s b64])
            (jobs_of (sentences (fst (smooth_feed [] [js ''Hi. ''])))))"
    by blast+
  show ?thesis using a b c f g h[unfolded e] k[unfolded j] by simp
qed

text \<open>
  C5. When the transcription result has no text or the empty text, the history is
  unchanged and the events sent are the processing status and then the idle status: no
  text event, no audio event, no error event.
\<close>

theorem silent_audio_leaves_history:
  assumes "whisper env audioData = WhisperResult t" and "t = None \<or> t = Some []"
  shows "on_message env sched msgHistory (ArrayBuffer audioData)
     = \<lparr>msgHistory_after = msgHistory,
        emitted = [StatusEvent status_processing, StatusEvent status_idle],
        emitted_late = []\<rparr>"
  using assms
  by (auto simp: on_message_def handleAudioInput_def transcribeAudio_def)

theorem silent_audio_witness:
  "whisper example_env [] = WhisperResult None \<and>
   on_message example_env [] [\<lparr>role = User, content = js ''hi''\<rparr>] (ArrayBuffer [])
     = \<lparr>msgHistory_after = [\<lparr>role = User, content = js ''hi''\<rparr>],
        emitted = [StatusEvent status_processing, StatusEvent status_idle],
        emitted_late = []\<rparr>"
proof -
  have a: "whisper example_env [] = WhisperResult None" by (simp add: example_env_def)
  from silent_audio_leaves_history[OF a, of "[]" "[\<lparr>role = User, content = js ''hi''\<rparr>]"] a
  show ?thesis by simp
qed

text \<open>
  C6, as amended. When the buffer has no sentence match and is longer than 120 code units,
  the callback returns the whole buffer, so exactly one chunk is cut, the entire buffer,
  and the buffer is left empty. The chunk gives one utterance, its trimmed text, unless
  the buffer is white space only: then no utterance is emitted.
\<close>

theorem force_cut_emits_whole_buffer:
  assumes "sentence_match buf = None" and "120 < length buf"
  shows "chunking buf = Some buf \<and> cut_chunks buf = ([buf], []) \<and>
     sentences (fst (cut_chunks buf)) = (if list_all isWhiteSpace buf then [] else [trim buf])"
proof -
  have c: "chunking buf = Some buf" using assms by (simp add: chunking_def)
  have "cut_chunks buf = ([buf], [])"
    by (subst cut_chunks.simps) (simp add: c cut_chunks_Nil)
  then show ?thesis using c by (simp add: sentences_def trim_empty_iff)
qed

text \<open>
  C6 as stated fails on a buffer of 121 spaces: it is force-cut, and no utterance is
  emitted.
\<close>

theorem force_cut_counterexample:
  "sentence_match (replicate 121 0x20) = None \<and> 120 < length (replicate 121 (0x20 :: code_unit)) \<and>
   sentences (fst (cut_chunks (replicate 121 0x20))) = []"
  by code_simp

text \<open>The 200-character fragment without a terminator: one utterance, all 200 characters.\<close>

theorem force_cut_witness:
  "sentence_match (replicate 200 0x61) = None \<and> 120 < length (replicate 200 (0x61 :: code_unit)) \<and>
   cut_chunks (replicate 200 0x61) = ([replicate 200 0x61], []) \<and>
   sentences (fst (cut_chunks (replicate 200 0x61))) = [replicate 200 0x61]"
proof -
  have a: "sentence_match (replicate 200 0x61) = None" by code_simp
  have b: "120 < length (replicate 200 (0x61 :: code_unit))" by simp
  have c: "(if list_all isWhiteSpace (replicate 200 0x61) then [] else [trim (replicate 200 0x61)])
      = [replicate 200 0x61]" by code_simp
  note t = force_cut_emits_whole_buffer[OF a b, unfolded c]
  show ?thesis using a b t by blast
qed

text \<open>
  C7. When the text "Hello there. How are you?" arrives as the three fragments "Hel",
  "lo there. How are", " you?", the Segmenter emits exactly two utterances, "Hello there."
  and then "How are you?".
\<close>

theorem segmenter_hello_example:
  "sentences (smoothStream [js ''Hel'', js ''lo there. How are'', js '' you?''])
     = [js ''Hello there.'', js ''How are you?'']"
  by code_simp

text \<open>
  C8. A clear command sets the history to the empty list, whatever it was (so it stays
  empty when it was empty), and the only event sent is the status "Chat cleared": no
  error event.
\<close>

theorem clear_resets_history:
  "on_message env sched msgHistory (JsonText (Fields (Some (js ''cmd'')) (Some (js ''clear''))))
     = \<lparr>msgHistory_after = [], emitted = [StatusEvent status_cleared], emitted_late = []\<rparr>"
  by (simp add: on_message_def)

text \<open>
  C9, as amended. For every list of N samples with N below 2 ^ 31 and every integer
  sample rate r from 0 to 2 ^ 32 - 1, the encoder returns a buffer of 44 + 2 * N bytes
  whose header reads back, little-endian, the sample rate r at offset 24, the channel
  count 1 at offset 22, the bit depth 16 at offset 34 and the data size 2 * N at offset
  40.
\<close>

theorem wav_header_roundtrip:
  assumes "0 \<le> r" and "r < 2 ^ 32" and "length samples < 2 ^ 31"
  shows "\<exists>buf. encodeWavPCM16 samples r = Some buf \<and>
     length buf = 44 + 2 * length samples \<and>
     getUint32 buf 24 True = Some r \<and>
     getUint16 buf 22 True = Some 1 \<and>
     getUint16 buf 34 True = Some 16 \<and>
     getUint32 buf 40 True = Some (2 * int (length samples))"
proof -
  let ?buf = "wav_header (length samples) r @ concat (map sample_bytes samples)"
  have "r < 4294967296" using assms(2) by simp
  with assms(1) have "uint (word_of_int r :: 32 word) = r" by (rule uint_word32_of_int)
  then have r: "uint (ToUint32 r) = r" unfolding ToUint32_def .
  have "0 \<le> int (length samples) * 2" "int (length samples) * 2 < 4294967296"
    using assms(3) by simp_all
  then have "uint (word_of_int (int (length samples) * 2) :: 32 word) = int (length samples) * 2"
    by (rule uint_word32_of_int)
  then have d: "uint (ToUint32 (int (length samples) * 2)) = 2 * int (length samples)"
    unfolding ToUint32_def by (simp only: mult.commute)
  have "encodeWavPCM16 samples r = Some ?buf" by (rule encodeWavPCM16_bytes)
  moreover have "length ?buf = 44 + 2 * length samples"
    by (simp add: length_wav_header length_concat_sample_bytes)
  moreover have "getUint32 ?buf 24 True = Some r" by (simp only: header_sampleRate r)
  moreover have "getUint16 ?buf 22 True = Some 1" by (rule header_numChannels)
  moreover have "getUint16 ?buf 34 True = Some 16" by (rule header_bitsPerSample)
  moreover have "getUint32 ?buf 40 True = Some (2 * int (length samples))"
    by (simp only: header_dataSize d)
  ultimately show ?thesis by blast
qed

text \<open>
  C9 as stated fails for a sample rate that does not fit 32 bits: the rate 4294967296 is
  written modulo 2 ^ 32 and reads back as 0.
\<close>

theorem sample_rate_wraps_counterexample:
  "encodeWavPCM16 [] 4294967296
     = Some [82, 73, 70, 70, 36, 0, 0, 0, 87, 65, 86, 69, 102, 109, 116, 32, 16, 0, 0, 0,
             1, 0, 1, 0, 0, 0, 0, 0, 0, 0, 0, 0, 2, 0, 16, 0, 100, 97, 116, 97, 0, 0, 0, 0] \<and>
   getUint32 [82, 73, 70, 70, 36, 0, 0, 0, 87, 65, 86, 69, 102, 109, 116, 32, 16, 0, 0, 0,
             1, 0, 1, 0, 0, 0, 0, 0, 0, 0, 0, 0, 2, 0, 16, 0, 100, 97, 116, 97, 0, 0, 0, 0]
     24 True = Some 0"
  by code_simp

theorem wav_header_roundtrip_witness:
  "(0::int) \<le> 16000 \<and> (16000::int) < 2 ^ 32 \<and>
   length [Finite (1 / 2), Finite (- 3), NaN, PosInf] < 2 ^ 31 \<and>
   (\<exists>buf. encodeWavPCM16 [Finite (1 / 2), Finite (- 3), NaN, PosInf] 16000 = Some buf \<and>
      length buf = 52 \<and>
      getUint32 buf 24 True = Some 16000 \<and>
      getUint16 buf 22 True = Some 1 \<and>
      getUint16 buf 34 True = Some 16 \<and>
      getUint32 buf 40 True = Some 8)"
  using wav_header_roundtrip[of 16000 "[Finite (1 / 2), Finite (- 3), NaN, PosInf]"]
  by simp




end
